theory Spec2Isabelle
  imports Complex_Main "HOL-Library.Multiset" "HOL-Library.Char_ord" "HOL-Library.List_Lexorder"
begin

section \<open>Python and pandas primitives used by the pruning code\<close>

datatype py_error =
  NameError | TypeError | KeyError | IndexError | ZeroDivisionError | ValueError | AttributeError

text \<open>\<^verbatim>\<open>s.split(sep)\<close> for a one-character separator: the pieces between the
  separators, always at least one piece.\<close>

fun split_sep :: "char \<Rightarrow> string \<Rightarrow> string list" where
  "split_sep c [] = [[]]"
| "split_sep c (x # xs) =
     (if x = c then [] # split_sep c xs
      else (case split_sep c xs of
              [] \<Rightarrow> [[x]]
            | p # ps \<Rightarrow> (x # p) # ps))"

text \<open>\<^verbatim>\<open>xs[i]\<close> on a list: IndexError out of range.\<close>

definition py_index :: "'a list \<Rightarrow> nat \<Rightarrow> py_error + 'a" where
  "py_index xs i = (if i < length xs then Inr (xs ! i) else Inl IndexError)"

text \<open>\<^verbatim>\<open>list(set(xs))\<close>: the elements of \<open>xs\<close>, each once. Python fixes no order;
  the model keeps one, and nothing below depends on it.\<close>

definition list_set :: "'a list \<Rightarrow> 'a list" where
  "list_set xs = remdups xs"

text \<open>pandas \<^verbatim>\<open>unique()\<close>: the distinct values in order of first appearance.\<close>

fun unique :: "'a list \<Rightarrow> 'a list" where
  "unique [] = []"
| "unique (x # xs) = x # unique (filter (\<lambda>y. y \<noteq> x) xs)"

text \<open>pandas \<^verbatim>\<open>value_counts()\<close>: one entry per distinct value with its number of
  occurrences, sorted on the count, descending. pandas sorts with its default quicksort,
  which is not stable, so the order among values of equal count is not fixed by the source:
  \<open>tie\<close> stands for it. Among values of equal count, the value with the smaller
  \<open>tie xs\<close> comes first (and the one that appears first among those of equal
  \<open>tie xs\<close>). Every order among equal counts is the order of some \<open>tie\<close>.\<close>

definition value_counts :: "('a list \<Rightarrow> 'a \<Rightarrow> nat) \<Rightarrow> 'a list \<Rightarrow> ('a \<times> nat) list" where
  "value_counts tie xs =
     rev (sort_key snd (rev (sort_key (\<lambda>kn. tie xs (fst kn))
                                       (map (\<lambda>k. (k, count_list xs k)) (unique xs)))))"

text \<open>Two tie orders: values of equal count in order of first appearance, and in reverse
  order of first appearance.\<close>

definition first_seen :: "'a list \<Rightarrow> 'a \<Rightarrow> nat" where
  "first_seen xs k = 0"

definition last_seen :: "'a list \<Rightarrow> 'a \<Rightarrow> nat" where
  "last_seen xs k = length (dropWhile (\<lambda>x. x \<noteq> k) xs)"

text \<open>\<^verbatim>\<open>vc[k]\<close> / \<^verbatim>\<open>vc.loc[k]\<close> on a value-count series.\<close>

definition vc_get :: "('a \<times> nat) list \<Rightarrow> 'a \<Rightarrow> py_error + nat" where
  "vc_get vc k = (case map_of vc k of None \<Rightarrow> Inl KeyError | Some n \<Rightarrow> Inr n)"

section \<open>The observation table\<close>

text \<open>One row of \<^verbatim>\<open>adata.obs\<close>: the index (barcode), the cluster of the cell under
  each labeling, the columns \<^verbatim>\<open>raw\<close>, \<^verbatim>\<open>ori\<close>, \<^verbatim>\<open>pruned\<close> and \<^verbatim>\<open>prefixed\<close>,
  and the metric columns \<^verbatim>\<open>metric@labeling\<close> by name. \<open>None\<close> is a column with no
  value in that row. The metric values are only copied, never computed with.\<close>

record obs_row =
  barcode :: string
  labels :: "(string \<times> string) list"
  raw :: string
  ori :: nat
  pruned :: "string option"
  prefixed :: "string option"
  scores :: "(string \<times> rat) list"

definition label_of :: "string \<Rightarrow> obs_row \<Rightarrow> string option" where
  "label_of key r = map_of (labels r) key"

text \<open>\<^verbatim>\<open>obs['ori'] = np.arange(obs.shape[0])\<close>\<close>

definition attach_ori :: "obs_row list \<Rightarrow> obs_row list" where
  "attach_ori obs = map (\<lambda>(i, r). r\<lparr>ori := i\<rparr>) (enumerate 0 obs)"

text \<open>\<^verbatim>\<open>obs.groupby(by=key)\<close>: one group per value of the column, the groups in sorted
  order of the value, the rows of a group in table order. A table without the column
  raises KeyError.\<close>

definition groupby :: "string \<Rightarrow> obs_row list \<Rightarrow> py_error + (string \<times> obs_row list) list" where
  "groupby key obs =
     (if \<exists>r \<in> set obs. label_of key r = None then Inl KeyError
      else Inr (map (\<lambda>k. (k, filter (\<lambda>r. label_of key r = Some k) obs))
                    (sort (remdups (List.map_filter (label_of key) obs)))))"

text \<open>\<^verbatim>\<open>df.sort_values(by='ori')\<close>\<close>

definition sort_by_ori :: "obs_row list \<Rightarrow> obs_row list" where
  "sort_by_ori rows = sort_key ori rows"

section \<open>The ScTriangulate object\<close>

type_synonym size_index = "string \<rightharpoonup> (string \<rightharpoonup> nat)"

text \<open>The attributes of the object that pruning and attribution read or write. An
  attribute that \<^verbatim>\<open>del\<close> has removed is \<open>None\<close>. \<open>invaild\<close> is the attribute that
  \<^verbatim>\<open>clear_invalid\<close> assigns.\<close>

record sctri =
  adata_obs :: "obs_row list"
  query :: "string list"
  reference :: string
  size_dict :: size_index
  uns :: "string list"
  total_metrics :: "string list"
  invalid :: "string list option"
  invaild :: "string list option"

text \<open>\<^verbatim>\<open>add_to_invalid\<close>: extend the list (an absent attribute is first set to the
  empty list), then deduplicate in the \<^verbatim>\<open>finally\<close> clause.\<close>

definition add_to_invalid :: "string list \<Rightarrow> sctri \<Rightarrow> sctri" where
  "add_to_invalid new s =
     (let extended = (case invalid s of Some cur \<Rightarrow> cur @ new | None \<Rightarrow> [] @ new)
      in s\<lparr>invalid := Some (list_set extended)\<rparr>)"

text \<open>\<^verbatim>\<open>clear_invalid\<close>: \<^verbatim>\<open>del self.invalid\<close> (AttributeError when absent), then
  \<^verbatim>\<open>self.invaild = []\<close>.\<close>

definition clear_invalid :: "sctri \<Rightarrow> py_error + sctri" where
  "clear_invalid s =
     (case invalid s of
        None \<Rightarrow> Inl AttributeError
      | Some _ \<Rightarrow> Inr (s\<lparr>invalid := None, invaild := Some []\<rparr>))"

section \<open>Reference pruning (\<^verbatim>\<open>prune.py\<close>)\<close>

text \<open>A count divided by a size, as numpy divides an integer by an integer: a positive
  count over 0 is \<open>inf\<close>, 0 over 0 is \<open>nan\<close>. The thresholds 0.6 and 0.05 are the
  rationals 3/5 and 1/20.\<close>

datatype quotient = Finite rat | Inf | NaN

definition np_div :: "nat \<Rightarrow> nat \<Rightarrow> quotient" where
  "np_div a b = (if b = 0 then (if a = 0 then NaN else Inf) else Finite (of_nat a / of_nat b))"

fun q_ge :: "quotient \<Rightarrow> rat \<Rightarrow> bool" where
  "q_ge (Finite x) t = (t \<le> x)"
| "q_ge Inf t = True"
| "q_ge NaN t = False"

fun q_lt :: "quotient \<Rightarrow> rat \<Rightarrow> bool" where
  "q_lt (Finite x) t = (x < t)"
| "q_lt Inf t = False"
| "q_lt NaN t = False"

definition abs_thresh :: "nat \<Rightarrow> nat" where
  "abs_thresh n = (if n < 50000 then 10 else 30)"

text \<open>\<^verbatim>\<open>size_dict[cluster.split('@')[0]][cluster.split('@')[1]]\<close>\<close>

definition cluster_size :: "size_index \<Rightarrow> string \<Rightarrow> py_error + nat" where
  "cluster_size sd cluster =
     (let parts = split_sep CHR ''@'' cluster in
      case py_index parts 0 of Inl e \<Rightarrow> Inl e | Inr key \<Rightarrow>
     (case sd key of None \<Rightarrow> Inl KeyError | Some inner \<Rightarrow>
     (case py_index parts 1 of Inl e \<Rightarrow> Inl e | Inr c \<Rightarrow>
     (case inner c of None \<Rightarrow> Inl KeyError | Some n \<Rightarrow> Inr n))))"

text \<open>\<^verbatim>\<open>inclusiveness(obs, r, c)\<close>: the two overlap fractions of a reference cluster
  \<open>r\<close> and a cluster \<open>c\<close>, over sets of barcodes.\<close>

definition inclusiveness ::
  "obs_row list \<Rightarrow> string \<times> string \<Rightarrow> string \<times> string \<Rightarrow> py_error + rat \<times> rat" where
  "inclusiveness obs r c =
     (let r_key = fst r; r_cluster = snd r; c_key = fst c; c_cluster = snd c in
      if \<exists>row \<in> set obs. label_of r_key row = None then Inl KeyError
      else if \<exists>row \<in> set obs. label_of c_key row = None then Inl KeyError
      else
        let r_set = remdups (map barcode (filter (\<lambda>row. label_of r_key row = Some r_cluster) obs));
            c_set = remdups (map barcode (filter (\<lambda>row. label_of c_key row = Some c_cluster) obs));
            rc_i = filter (\<lambda>b. b \<in> set c_set) r_set
        in if length r_set = 0 then Inl ZeroDivisionError
           else if length c_set = 0 then Inl ZeroDivisionError
           else Inr (of_nat (length rc_i) / of_nat (length r_set),
                     of_nat (length rc_i) / of_nat (length c_set)))"

text \<open>The loop of \<^verbatim>\<open>run_reference_pruning\<close> over \<^verbatim>\<open>overlap_clusters\<close>, filling
  \<^verbatim>\<open>mapping\<close>. \<open>thresh\<close> is the local \<^verbatim>\<open>abs_thresh\<close>.\<close>

fun reference_mapping ::
  "nat \<Rightarrow> obs_row list \<Rightarrow> string \<Rightarrow> string \<Rightarrow> size_index \<Rightarrow> (string \<times> nat) list
     \<Rightarrow> string list \<Rightarrow> (string \<rightharpoonup> string) \<Rightarrow> py_error + (string \<rightharpoonup> string)" where
  "reference_mapping thresh obs refname ref_cluster sd vc [] mapping = Inr mapping"
| "reference_mapping thresh obs refname ref_cluster sd vc (cluster # rest) mapping =
     (let parts = split_sep CHR ''@'' cluster in
      case py_index parts 0 of Inl e \<Rightarrow> Inl e | Inr c_key \<Rightarrow>
     (case py_index parts 1 of Inl e \<Rightarrow> Inl e | Inr c_cluster \<Rightarrow>
     (case inclusiveness obs (refname, ref_cluster) (c_key, c_cluster) of Inl e \<Rightarrow> Inl e | Inr fractions \<Rightarrow>
     (case vc_get vc cluster of Inl e \<Rightarrow> Inl e | Inr count_cluster \<Rightarrow>
     (case cluster_size sd cluster of Inl e \<Rightarrow> Inl e | Inr size_self \<Rightarrow>
        let proportion_to_ref = np_div count_cluster (sum_list (map snd vc));
            proportion_to_self = np_div count_cluster size_self;
            target =
              (if q_ge proportion_to_self (6 / 10) then cluster
               else if q_ge proportion_to_ref (5 / 100) then cluster
               else if q_lt proportion_to_ref (5 / 100) \<and> thresh < count_cluster then cluster
               else refname @ ''@'' @ ref_cluster)
        in reference_mapping thresh obs refname ref_cluster sd vc rest
             (mapping(cluster \<mapsto> target)))))))"

text \<open>The post-pass of both strategies: within one reference group, every row whose
  pruned cluster has count 1 takes the cluster that \<^verbatim>\<open>value_counts\<close> lists first among
  those of maximal count.\<close>

definition max_count :: "('a \<times> nat) list \<Rightarrow> nat" where
  "max_count vc = fold max (map snd vc) 0"

definition singleton_cleanup ::
  "(string list \<Rightarrow> string \<Rightarrow> nat) \<Rightarrow> obs_row list \<Rightarrow> py_error + obs_row list" where
  "singleton_cleanup tie subset_rows =
     (let vc2 = value_counts tie (List.map_filter pruned subset_rows) in
      case py_index (map fst (filter (\<lambda>kn. snd kn = max_count vc2) vc2)) 0 of
        Inl e \<Rightarrow> Inl e
      | Inr most_abundant_cluster \<Rightarrow>
          let exclude_clusters = map fst (filter (\<lambda>kn. snd kn = 1) vc2)
          in Inr (map (\<lambda>r. case pruned r of
                              None \<Rightarrow> r
                            | Some p \<Rightarrow> if p \<in> set exclude_clusters
                                        then r\<lparr>pruned := Some most_abundant_cluster\<rparr> else r)
                      subset_rows))"

text \<open>Lines 149 to 168 of \<^verbatim>\<open>run_reference_pruning\<close>: the value counts of the chunk and
  the mapping built from them.\<close>

definition chunk_mapping ::
  "(string list \<Rightarrow> string \<Rightarrow> nat) \<Rightarrow> nat \<Rightarrow> string \<times> obs_row list \<Rightarrow> string \<Rightarrow> size_index
     \<Rightarrow> obs_row list \<Rightarrow> py_error + (string \<rightharpoonup> string)" where
  "chunk_mapping tie thresh chunk refname sd obs =
     (let subset_rows = snd chunk;
          vc = value_counts tie (map raw subset_rows);
          overlap_clusters = map fst vc
      in reference_mapping thresh obs refname (fst chunk) sd vc overlap_clusters Map.empty)"

definition run_reference_pruning ::
  "(string list \<Rightarrow> string \<Rightarrow> nat) \<Rightarrow> string \<times> obs_row list \<Rightarrow> string \<Rightarrow> size_index
     \<Rightarrow> obs_row list \<Rightarrow> py_error + obs_row list" where
  "run_reference_pruning tie chunk refname sd obs =
     (case chunk_mapping tie (abs_thresh (length obs)) chunk refname sd obs of
        Inl e \<Rightarrow> Inl e
      | Inr mapping \<Rightarrow> singleton_cleanup tie (map (\<lambda>r. r\<lparr>pruned := mapping (raw r)\<rparr>) (snd chunk)))"

text \<open>Results of the workers, collected in submission order; the first failure is
  raised.\<close>

fun collect_all :: "(py_error + 'a) list \<Rightarrow> py_error + 'a list" where
  "collect_all [] = Inr []"
| "collect_all (x # xs) =
     (case x of Inl e \<Rightarrow> Inl e
      | Inr v \<Rightarrow> (case collect_all xs of Inl e \<Rightarrow> Inl e | Inr vs \<Rightarrow> Inr (v # vs)))"

text \<open>\<^verbatim>\<open>reference_pruning\<close>: a pool of zero processes (no chunk) is a ValueError.\<close>

definition reference_pruning ::
  "(string list \<Rightarrow> string \<Rightarrow> nat) \<Rightarrow> obs_row list \<Rightarrow> string \<Rightarrow> size_index
     \<Rightarrow> py_error + obs_row list" where
  "reference_pruning tie obs0 refname sd =
     (let obs = attach_ori obs0 in
      case groupby refname obs of Inl e \<Rightarrow> Inl e | Inr chunk_list \<Rightarrow>
      if chunk_list = [] then Inl ValueError
      else (case collect_all (map (\<lambda>chunk. run_reference_pruning tie chunk refname sd obs)
                                  chunk_list) of
              Inl e \<Rightarrow> Inl e
            | Inr pruned_chunks \<Rightarrow> Inr (sort_by_ori (concat pruned_chunks))))"

section \<open>Reassign pruning (\<^verbatim>\<open>prune.py\<close>)\<close>

text \<open>Lines 31 to 36: the loop that appends the too small clusters to \<^verbatim>\<open>invalid\<close>.\<close>

fun mark_small ::
  "nat \<Rightarrow> size_index \<Rightarrow> (string \<times> nat) list \<Rightarrow> string list \<Rightarrow> py_error + string list" where
  "mark_small thresh sd [] invalid_acc = Inr invalid_acc"
| "mark_small thresh sd ((key_cluster, n) # rest) invalid_acc =
     (case cluster_size sd key_cluster of Inl e \<Rightarrow> Inl e | Inr size_self \<Rightarrow>
        if n < thresh then mark_small thresh sd rest (invalid_acc @ [key_cluster])
        else if (of_nat n :: rat) < (5 / 100) * of_nat size_self
             then mark_small thresh sd rest (invalid_acc @ [key_cluster])
        else mark_small thresh sd rest invalid_acc)"

text \<open>Lines 29 to 38 of \<^verbatim>\<open>reassign_pruning\<close>: the floor, the loop and the
  deduplication, from the size index, the invalid list of the object and the table.\<close>

definition invalid_clusters ::
  "(string list \<Rightarrow> string \<Rightarrow> nat) \<Rightarrow> size_index \<Rightarrow> string list \<Rightarrow> obs_row list
     \<Rightarrow> py_error + string list" where
  "invalid_clusters tie sd invalid0 obs =
     (let thresh = abs_thresh (length obs);
          vc = value_counts tie (map raw obs)
      in case mark_small thresh sd vc invalid0 of
           Inl e \<Rightarrow> Inl e
         | Inr marked \<Rightarrow> Inr (list_set marked))"

text \<open>\<^verbatim>\<open>reassign_pruning(sctri)\<close>. Its body reads the module-level name \<^verbatim>\<open>adata\<close>:
  \<open>g_adata\<close> is the binding of that name in the module, \<open>None\<close> when the module binds
  none. Lines 44 to 102 (marker pool, scaling, PCA, centroids, nearest-neighbour
  prediction) are scikit-learn calls on floating-point data. Their input checks are in the
  model: \<^verbatim>\<open>PCA(n_components=30)\<close> at line 71 needs thirty cells at least, fitting at
  line 97 needs a valid cluster, and \<^verbatim>\<open>model.predict\<close> at line 101 needs an invalid
  cell; each raises ValueError otherwise. \<open>classify\<close> stands for the rest, from the valid
  and the invalid rows to the predicted label of every invalid row.\<close>

definition reassign_pruning ::
  "(string list \<Rightarrow> string \<Rightarrow> nat) \<Rightarrow> obs_row list option
     \<Rightarrow> (obs_row list \<Rightarrow> obs_row list \<Rightarrow> py_error + string list)
     \<Rightarrow> sctri \<Rightarrow> py_error + obs_row list \<times> string list" where
  "reassign_pruning tie g_adata classify s =
     (case g_adata of None \<Rightarrow> Inl NameError | Some obs0 \<Rightarrow>
     (case invalid s of None \<Rightarrow> Inl AttributeError | Some invalid0 \<Rightarrow>
      if ''marker_genes'' \<notin> set (uns s) then Inl KeyError
      else
        let obs = attach_ori obs0
        in (case invalid_clusters tie (size_dict s) invalid0 obs of Inl e \<Rightarrow> Inl e | Inr invalid_list \<Rightarrow>
        let valid_obs = filter (\<lambda>r. raw r \<notin> set invalid_list) obs;
            invalid_obs = filter (\<lambda>r. raw r \<in> set invalid_list) obs
        in if length obs < 30 then Inl ValueError
           else if valid_obs = [] then Inl ValueError
           else if invalid_obs = [] then Inl ValueError
           else (case classify valid_obs invalid_obs of Inl e \<Rightarrow> Inl e | Inr result \<Rightarrow>
        if length result \<noteq> length invalid_obs then Inl ValueError
        else
          let test = map (\<lambda>(r, p). r\<lparr>pruned := Some p\<rparr>) (zip invalid_obs result);
              train = map (\<lambda>r. r\<lparr>pruned := Some (raw r)\<rparr>) valid_obs;
              modified_obs = sort_by_ori (train @ test)
          in (case groupby (reference s) modified_obs of Inl e \<Rightarrow> Inl e | Inr groups \<Rightarrow>
             (case collect_all (map (\<lambda>g. singleton_cleanup tie (snd g)) groups) of
                Inl e \<Rightarrow> Inl e
              | Inr bucket \<Rightarrow>
                  if bucket = [] then Inl ValueError
                  else Inr (sort_by_ori (concat bucket), invalid_list)))))))"

section \<open>Pruning and attribution in \<^verbatim>\<open>main_class.py\<close>\<close>

text \<open>A call with keyword arguments: a keyword that is no parameter of the function is a
  TypeError.\<close>

definition bind_keywords :: "string list \<Rightarrow> string list \<Rightarrow> py_error + unit" where
  "bind_keywords params keywords =
     (if \<forall>k \<in> set keywords. k \<in> set params then Inr () else Inl TypeError)"

definition reassign_pruning_params :: "string list" where
  "reassign_pruning_params = [''sctri'']"

text \<open>\<^verbatim>\<open>prune.py\<close> assigns no module-level name \<^verbatim>\<open>adata\<close>.\<close>

definition prune_module_adata :: "obs_row list option" where
  "prune_module_adata = None"

text \<open>\<^verbatim>\<open>_prefixing(col='pruned')\<close>\<close>

definition prefixing_pruned :: "string \<Rightarrow> obs_row list \<Rightarrow> py_error + obs_row list" where
  "prefixing_pruned refname obs =
     (if \<exists>r \<in> set obs. pruned r = None then Inl KeyError
      else if \<exists>r \<in> set obs. label_of refname r = None then Inl KeyError
      else Inr (map (\<lambda>r. case (label_of refname r, pruned r) of
                            (Some c, Some p) \<Rightarrow> r\<lparr>prefixed := Some (refname @ ''@'' @ c @ ''|'' @ p)\<rparr>
                          | _ \<Rightarrow> r) obs))"

definition TAB :: char where "TAB = CHR 0x09"
definition NL :: char where "NL = CHR 0x0A"

definition celltype_header :: string where
  "celltype_header = ''reference'' @ [TAB] @ ''cell_cluster'' @ [TAB] @ ''choice'' @ [NL]"

text \<open>One \<^verbatim>\<open>f.write('{}\t{}\n'.format(self.reference + '@' + ref, reassign))\<close>\<close>

definition celltype_line :: "string \<Rightarrow> string \<Rightarrow> string \<Rightarrow> string" where
  "celltype_line refname ref reassign = (refname @ ''@'' @ ref) @ [TAB] @ reassign @ [NL]"

text \<open>The text written to \<^verbatim>\<open>celltype.txt\<close>, as the list of the strings written: the
  header, then one line per reference group and distinct pruned label in it.\<close>

definition celltype_sheet :: "string \<Rightarrow> obs_row list \<Rightarrow> py_error + string list" where
  "celltype_sheet refname obs =
     (case groupby refname obs of
        Inl e \<Rightarrow> Inl e
      | Inr groups \<Rightarrow>
          Inr (celltype_header #
               concat (map (\<lambda>g. map (celltype_line refname (fst g))
                                     (unique (map (\<lambda>r. case pruned r of None \<Rightarrow> ''nan'' | Some p \<Rightarrow> p)
                                                  (snd g))))
                           groups)))"

text \<open>\<^verbatim>\<open>pruning(method, ..., parallel)\<close>, returning the object and the text of the
  celltype sheet. \<^verbatim>\<open>rank_pruning\<close> is not defined in this source tree: \<open>rank\<close> stands
  for the whole \<^verbatim>\<open>rank\<close> branch.\<close>

definition pruning ::
  "(string list \<Rightarrow> string \<Rightarrow> nat) \<Rightarrow> (sctri \<Rightarrow> py_error + sctri)
     \<Rightarrow> (obs_row list \<Rightarrow> obs_row list \<Rightarrow> py_error + string list)
     \<Rightarrow> sctri \<Rightarrow> string \<Rightarrow> bool \<Rightarrow> py_error + sctri \<times> string list" where
  "pruning tie rank classify self method parallel =
     (case
        (if parallel then
           (if method = ''reference'' then
              (case reference_pruning tie (adata_obs self) (reference self) (size_dict self) of
                 Inl e \<Rightarrow> Inl e
               | Inr obs \<Rightarrow> Inr (self\<lparr>adata_obs := obs\<rparr>))
            else if method = ''reassign'' then
              (case bind_keywords reassign_pruning_params [''abs_thresh'', ''remove1'', ''reference''] of
                 Inl e \<Rightarrow> Inl e
               | Inr u \<Rightarrow>
                  (case reassign_pruning tie prune_module_adata classify self of
                     Inl e \<Rightarrow> Inl e
                   | Inr res \<Rightarrow> Inr (self\<lparr>adata_obs := fst res, invalid := Some (snd res)\<rparr>)))
            else if method = ''rank'' then rank self
            else Inr self)
         else Inr self) of
        Inl e \<Rightarrow> Inl e
      | Inr self1 \<Rightarrow>
         (case prefixing_pruned (reference self1) (adata_obs self1) of
            Inl e \<Rightarrow> Inl e
          | Inr obs \<Rightarrow>
             (case celltype_sheet (reference self1) obs of
                Inl e \<Rightarrow> Inl e
              | Inr sheet \<Rightarrow> Inr (self1\<lparr>adata_obs := obs\<rparr>, sheet))))"

text \<open>\<^verbatim>\<open>xs.remove(x)\<close>: the first occurrence goes; ValueError when there is none.\<close>

definition list_remove :: "'a \<Rightarrow> 'a list \<Rightarrow> py_error + 'a list" where
  "list_remove x xs = (if x \<in> set xs then Inr (remove1 x xs) else Inl ValueError)"

text \<open>\<^verbatim>\<open>obs[names].values\<close>: one row per cell, one entry per named column.\<close>

definition select_columns :: "obs_row list \<Rightarrow> string list \<Rightarrow> py_error + rat list list" where
  "select_columns obs names =
     (if \<exists>r \<in> set obs. \<exists>n \<in> set names. map_of (scores r) n = None then Inl KeyError
      else Inr (map (\<lambda>r. List.map_filter (map_of (scores r)) names) obs))"

text \<open>\<^verbatim>\<open>np.array_split(xs, k)\<close>: \<open>k\<close> consecutive pieces, the first
  \<open>length xs mod k\<close> of them one longer.\<close>

definition array_split :: "nat \<Rightarrow> 'a list \<Rightarrow> 'a list list" where
  "array_split k xs =
     (let q = length xs div k; r = length xs mod k
      in map (\<lambda>i. if i < r then take (q + 1) (drop (i * (q + 1)) xs)
                   else take q (drop (r * (q + 1) + (i - r) * q) xs)) [0..<k])"

text \<open>\<^verbatim>\<open>compute_shapley\<close> up to its calls of \<^verbatim>\<open>run_shapley\<close>: the \<^verbatim>\<open>data\<close>
  argument of every call (labeling, cell, metric). \<open>cores\<close> is \<^verbatim>\<open>mp.cpu_count()\<close>.\<close>

definition shapley_data :: "sctri \<Rightarrow> py_error + rat list list list" where
  "shapley_data self =
     (case list_remove ''doublet'' (total_metrics self) of
        Inl e \<Rightarrow> Inl e
      | Inr score_colname \<Rightarrow>
          collect_all (map (\<lambda>key. select_columns (adata_obs self)
                                      (map (\<lambda>name. name @ ''@'' @ key) score_colname))
                           (query self)))"

definition compute_shapley_data :: "bool \<Rightarrow> nat \<Rightarrow> sctri \<Rightarrow> py_error + rat list list list list" where
  "compute_shapley_data parallel cores self =
     (if parallel then
        (case shapley_data self of
           Inl e \<Rightarrow> Inl e
         | Inr data \<Rightarrow>
             if cores = 0 then Inl ValueError
             else Inr (map (\<lambda>i. map (\<lambda>layer. array_split cores layer ! i) data) [0..<cores]))
      else
        (case shapley_data self of
           Inl e \<Rightarrow> Inl e
         | Inr data \<Rightarrow> Inr [data]))"

text \<open>The metric registry: \<^verbatim>\<open>__init__\<close> sets \<^verbatim>\<open>total_metrics\<close> to the four default
  metrics, and \<^verbatim>\<open>add_new_metrics\<close> stores the new metrics in the dictionary
  \<^verbatim>\<open>add_metrics\<close> and extends \<^verbatim>\<open>total_metrics\<close> by all keys of that dictionary. The
  state is the pair of the keys of \<^verbatim>\<open>add_metrics\<close>, in insertion order, and
  \<^verbatim>\<open>total_metrics\<close>.\<close>

definition default_metrics :: "string list" where
  "default_metrics = [''reassign'', ''tfidf10'', ''SCCAF'', ''doublet'']"

definition add_new_metrics :: "string list \<Rightarrow> string list \<times> string list \<Rightarrow> string list \<times> string list" where
  "add_new_metrics new reg =
     (let added = fst reg @ filter (\<lambda>k. k \<notin> set (fst reg)) (unique new)
      in (added, snd reg @ added))"

section \<open>The decision policy of reference pruning in the words of the specification\<close>

text \<open>First matching rule wins: proportion to self at least 0.6, else proportion to the
  reference group at least 0.05, else that proportion below 0.05 and the count above the
  floor: keep the cluster; else the label of the reference cluster. \<open>n\<close> is the count of
  the cluster in the chunk, \<open>s\<close> its size in the size index.\<close>

definition policy_by_spec :: "nat \<Rightarrow> string \<Rightarrow> string \<Rightarrow> nat \<Rightarrow> string \<Rightarrow> nat \<Rightarrow> nat \<Rightarrow> string" where
  "policy_by_spec count_floor refname ref_cluster chunk_size cluster n s =
     (if (6 / 10 :: rat) \<le> of_nat n / of_nat s then cluster
      else if (5 / 100 :: rat) \<le> of_nat n / of_nat chunk_size then cluster
      else if (of_nat n / of_nat chunk_size :: rat) < 5 / 100 \<and> count_floor < n then cluster
      else refname @ ''@'' @ ref_cluster)"

section \<open>Order preservation in the words of the specification\<close>

text \<open>Two rows are the same observation when they agree on everything but the columns
  that pruning writes (\<^verbatim>\<open>ori\<close>, \<^verbatim>\<open>pruned\<close>, \<^verbatim>\<open>prefixed\<close>). A worker carries a row when
  it returns the same observation with the same original position.\<close>

definition same_observation :: "obs_row \<Rightarrow> obs_row \<Rightarrow> bool" where
  "same_observation a b \<longleftrightarrow>
     barcode a = barcode b \<and> labels a = labels b \<and> raw a = raw b \<and> scores a = scores b"

definition carried :: "obs_row \<Rightarrow> obs_row \<Rightarrow> bool" where
  "carried a b \<longleftrightarrow> same_observation a b \<and> ori a = ori b"

section \<open>Example inputs\<close>

definition example_obj :: sctri where
  "example_obj =
     \<lparr>adata_obs = [], query = [''leiden1'', ''leiden2''], reference = ''leiden1'',
      size_dict = Map.empty, uns = [''marker_genes''],
      total_metrics = [''reassign'', ''tfidf10'', ''SCCAF'', ''doublet'', ''tfidf5''],
      invalid = Some [''leiden2@3''], invaild = None\<rparr>"

text \<open>A small table: two labelings, four cells.\<close>

definition mk_row :: "string \<Rightarrow> string \<Rightarrow> string \<Rightarrow> string \<Rightarrow> obs_row" where
  "mk_row b c1 c2 rw =
     \<lparr>barcode = b, labels = [(''leiden1'', c1), (''leiden2'', c2)], raw = rw, ori = 0,
      pruned = None, prefixed = None, scores = []\<rparr>"

definition small_obs :: "obs_row list" where
  "small_obs =
     [mk_row ''AAAC'' ''0'' ''0'' ''leiden1@0'',
      mk_row ''AAAG'' ''0'' ''1'' ''leiden2@1'',
      mk_row ''AACT'' ''1'' ''1'' ''leiden2@1'',
      mk_row ''AAGT'' ''0'' ''0'' ''leiden1@0'']"

definition small_sizes :: size_index where
  "small_sizes =
     [''leiden1'' \<mapsto> [''0'' \<mapsto> 3, ''1'' \<mapsto> 1],
      ''leiden2'' \<mapsto> [''0'' \<mapsto> 2, ''1'' \<mapsto> 2]]"

text \<open>A table of thirty cells: the raw cluster \<^verbatim>\<open>leiden2@0\<close> has twenty-eight cells,
  the raw cluster \<^verbatim>\<open>leiden2@1\<close> has two, below the floor of ten.\<close>

definition thirty_obs :: "obs_row list" where
  "thirty_obs =
     [mk_row ''e00'' ''0'' ''0'' ''leiden2@0'',
      mk_row ''e01'' ''0'' ''0'' ''leiden2@0'',
      mk_row ''e02'' ''0'' ''0'' ''leiden2@0'',
      mk_row ''e03'' ''0'' ''0'' ''leiden2@0'',
      mk_row ''e04'' ''0'' ''0'' ''leiden2@0'',
      mk_row ''e05'' ''0'' ''0'' ''leiden2@0'',
      mk_row ''e06'' ''0'' ''0'' ''leiden2@0'',
      mk_row ''e07'' ''0'' ''0'' ''leiden2@0'',
      mk_row ''e08'' ''0'' ''0'' ''leiden2@0'',
      mk_row ''e09'' ''0'' ''0'' ''leiden2@0'',
      mk_row ''e10'' ''0'' ''0'' ''leiden2@0'',
      mk_row ''e11'' ''0'' ''0'' ''leiden2@0'',
      mk_row ''e12'' ''0'' ''0'' ''leiden2@0'',
      mk_row ''e13'' ''0'' ''0'' ''leiden2@0'',
      mk_row ''e14'' ''0'' ''0'' ''leiden2@0'',
      mk_row ''e15'' ''1'' ''0'' ''leiden2@0'',
      mk_row ''e16'' ''1'' ''0'' ''leiden2@0'',
      mk_row ''e17'' ''1'' ''0'' ''leiden2@0'',
      mk_row ''e18'' ''1'' ''0'' ''leiden2@0'',
      mk_row ''e19'' ''1'' ''0'' ''leiden2@0'',
      mk_row ''e20'' ''1'' ''0'' ''leiden2@0'',
      mk_row ''e21'' ''1'' ''0'' ''leiden2@0'',
      mk_row ''e22'' ''1'' ''0'' ''leiden2@0'',
      mk_row ''e23'' ''1'' ''0'' ''leiden2@0'',
      mk_row ''e24'' ''1'' ''0'' ''leiden2@0'',
      mk_row ''e25'' ''1'' ''0'' ''leiden2@0'',
      mk_row ''e26'' ''1'' ''0'' ''leiden2@0'',
      mk_row ''e27'' ''1'' ''0'' ''leiden2@0'',
      mk_row ''e28'' ''1'' ''1'' ''leiden2@1'',
      mk_row ''e29'' ''1'' ''1'' ''leiden2@1'']"

definition thirty_obj :: sctri where
  "thirty_obj =
     \<lparr>adata_obs = thirty_obs, query = [''leiden1'', ''leiden2''], reference = ''leiden1'',
      size_dict = [''leiden1'' \<mapsto> [''0'' \<mapsto> 15, ''1'' \<mapsto> 15],
                   ''leiden2'' \<mapsto> [''0'' \<mapsto> 28, ''1'' \<mapsto> 2]],
      uns = [''marker_genes''],
      total_metrics = [''reassign'', ''tfidf10'', ''SCCAF'', ''doublet'', ''tfidf5''],
      invalid = Some [], invaild = None\<rparr>"



text \<open>A reference group of five cells: the pruned labels \<^verbatim>\<open>leiden1@0\<close> and
  \<^verbatim>\<open>leiden2@1\<close> have two cells each, \<^verbatim>\<open>leiden1@0\<close> encountered first, and
  \<^verbatim>\<open>leiden2@2\<close> has one.\<close>

definition tie_group :: "obs_row list" where
  "tie_group =
     [(mk_row ''TAAC'' ''0'' ''0'' ''leiden1@0'')\<lparr>pruned := Some ''leiden1@0''\<rparr>,
      (mk_row ''TAAG'' ''0'' ''1'' ''leiden2@1'')\<lparr>pruned := Some ''leiden2@1''\<rparr>,
      (mk_row ''TACT'' ''0'' ''1'' ''leiden2@1'')\<lparr>pruned := Some ''leiden2@1''\<rparr>,
      (mk_row ''TAGT'' ''0'' ''0'' ''leiden1@0'')\<lparr>pruned := Some ''leiden1@0''\<rparr>,
      (mk_row ''TCGT'' ''0'' ''2'' ''leiden2@2'')\<lparr>pruned := Some ''leiden2@2''\<rparr>]"

text \<open>A stand-in for the nearest-centroid classifier: every invalid cell is given the raw
  label of the first valid cell.\<close>

definition first_valid_label :: "obs_row list \<Rightarrow> obs_row list \<Rightarrow> py_error + string list" where
  "first_valid_label train test =
     (case train of [] \<Rightarrow> Inl ValueError | r # rest \<Rightarrow> Inr (map (\<lambda>t. raw r) test))"

text \<open>Two cells with their metric columns for the labeling \<^verbatim>\<open>leiden1\<close>.\<close>

definition scored_obj :: sctri where
  "scored_obj =
     example_obj
       \<lparr>query := [''leiden1''],
        adata_obs :=
          [(mk_row ''AAAC'' ''0'' ''0'' ''leiden1@0'')
             \<lparr>scores := [(''reassign@leiden1'', 1 / 2), (''tfidf10@leiden1'', 1 / 4),
                          (''SCCAF@leiden1'', 1), (''doublet@leiden1'', 1 / 10),
                          (''tfidf5@leiden1'', 0)]\<rparr>,
           (mk_row ''AAAG'' ''1'' ''1'' ''leiden1@1'')
             \<lparr>scores := [(''reassign@leiden1'', 1 / 3), (''tfidf10@leiden1'', 1 / 5),
                          (''SCCAF@leiden1'', 1 / 2), (''doublet@leiden1'', 1 / 20),
                          (''tfidf5@leiden1'', 1)]\<rparr>]\<rparr>"

text \<open>The two scored cells in an object constructed with a user metric that is itself named
  \<^verbatim>\<open>doublet\<close>: \<^verbatim>\<open>add_metrics={'tfidf5': f, 'doublet': g}\<close>.\<close>

definition doubled_obj :: sctri where
  "doubled_obj =
     scored_obj\<lparr>total_metrics := snd (add_new_metrics [''tfidf5'', ''doublet''] ([], default_metrics))\<rparr>"

text \<open>A table in which the raw cluster \<^verbatim>\<open>leiden2@1\<close> has one cell among the twenty-one
  of reference group \<^verbatim>\<open>leiden1 = 0\<close> and one more cell elsewhere.\<close>

definition fold_obs :: "obs_row list" where
  "fold_obs =
     [mk_row ''d00'' ''0'' ''0'' ''leiden2@0'',
      mk_row ''d01'' ''0'' ''0'' ''leiden2@0'',
      mk_row ''d02'' ''0'' ''0'' ''leiden2@0'',
      mk_row ''d03'' ''0'' ''0'' ''leiden2@0'',
      mk_row ''d04'' ''0'' ''0'' ''leiden2@0'',
      mk_row ''d05'' ''0'' ''0'' ''leiden2@0'',
      mk_row ''d06'' ''0'' ''0'' ''leiden2@0'',
      mk_row ''d07'' ''0'' ''0'' ''leiden2@0'',
      mk_row ''d08'' ''0'' ''0'' ''leiden2@0'',
      mk_row ''d09'' ''0'' ''0'' ''leiden2@0'',
      mk_row ''d10'' ''0'' ''0'' ''leiden2@0'',
      mk_row ''d11'' ''0'' ''0'' ''leiden2@0'',
      mk_row ''d12'' ''0'' ''0'' ''leiden2@0'',
      mk_row ''d13'' ''0'' ''0'' ''leiden2@0'',
      mk_row ''d14'' ''0'' ''0'' ''leiden2@0'',
      mk_row ''d15'' ''0'' ''0'' ''leiden2@0'',
      mk_row ''d16'' ''0'' ''0'' ''leiden2@0'',
      mk_row ''d17'' ''0'' ''0'' ''leiden2@0'',
      mk_row ''d18'' ''0'' ''0'' ''leiden2@0'',
      mk_row ''d19'' ''0'' ''0'' ''leiden2@0'',
      mk_row ''d20'' ''0'' ''1'' ''leiden2@1'',
      mk_row ''d21'' ''1'' ''1'' ''leiden2@1'']"

definition fold_sizes :: size_index where
  "fold_sizes =
     [''leiden1'' \<mapsto> [''0'' \<mapsto> 21, ''1'' \<mapsto> 1],
      ''leiden2'' \<mapsto> [''0'' \<mapsto> 20, ''1'' \<mapsto> 2]]"

definition fold_chunk :: "string \<times> obs_row list" where
  "fold_chunk = (''0'', take 21 fold_obs)"

text \<open>The object that holds the small table.\<close>

definition small_obj :: sctri where
  "small_obj = example_obj\<lparr>adata_obs := small_obs, size_dict := small_sizes\<rparr>"

section \<open>The invalid list\<close>

lemma add_to_invalid_distinct:
  "\<exists>l. invalid (add_to_invalid new s) = Some l \<and> distinct l \<and>
       set l = (case invalid s of None \<Rightarrow> {} | Some cur \<Rightarrow> set cur) \<union> set new"
  by (simp add: add_to_invalid_def list_set_def Let_def split: option.splits)

lemma clear_invalid_result:
  "invalid s = Some l \<Longrightarrow> clear_invalid s = Inr (s\<lparr>invalid := None, invaild := Some []\<rparr>)"
  by (simp add: clear_invalid_def)

text \<open>C8: after \<^verbatim>\<open>clear_invalid\<close> the object should have an attribute \<^verbatim>\<open>invalid\<close>
  holding the empty list. On an object whose invalid list is \<^verbatim>\<open>['leiden2@3']\<close> the
  call returns an object with no attribute \<^verbatim>\<open>invalid\<close> at all; the empty list is
  stored under the other name \<^verbatim>\<open>invaild\<close>.\<close>

theorem clear_invalid_drops_attribute:
  "clear_invalid example_obj = Inr (example_obj\<lparr>invalid := None, invaild := Some []\<rparr>)
   \<and> invalid (example_obj\<lparr>invalid := None, invaild := Some []\<rparr>) = None
   \<and> invaild (example_obj\<lparr>invalid := None, invaild := Some []\<rparr>) = Some []"
  by (simp add: clear_invalid_def example_obj_def)

section \<open>Calling \<^verbatim>\<open>pruning(method='reassign')\<close>\<close>

text \<open>C4: for every object, \<^verbatim>\<open>pruning(method='reassign')\<close> (with the default
  \<^verbatim>\<open>parallel=True\<close>) fails with a TypeError, since \<^verbatim>\<open>reassign_pruning\<close> takes
  \<^verbatim>\<open>sctri\<close> only and is called with three more keywords; and the body of
  \<^verbatim>\<open>reassign_pruning\<close>, run in its module, fails with a NameError on \<^verbatim>\<open>adata\<close>.
  Neither returns a table, so no pruned label is produced.\<close>

theorem pruning_reassign_fails:
  "pruning tie rank classify self ''reassign'' True = Inl TypeError
   \<and> reassign_pruning tie prune_module_adata classify self = Inl NameError"
  by (simp add: pruning_def bind_keywords_def reassign_pruning_params_def
      reassign_pruning_def prune_module_adata_def)

theorem pruning_reassign_fails_witness:
  "pruning last_seen (\<lambda>s. Inr s) (\<lambda>train test. Inr []) example_obj ''reassign'' True = Inl TypeError
   \<and> reassign_pruning last_seen prune_module_adata (\<lambda>train test. Inr []) example_obj = Inl NameError"
  by (rule pruning_reassign_fails)

section \<open>Facts about the pandas primitives\<close>

lemma set_unique [simp]: "set (unique xs) = set xs"
  by (induction xs rule: unique.induct) auto

lemma distinct_unique [simp]: "distinct (unique xs)"
  by (induction xs rule: unique.induct) auto

lemma mset_value_counts:
  "mset (value_counts tie xs) = mset (map (\<lambda>k. (k, count_list xs k)) (unique xs))"
  by (simp add: value_counts_def)

lemma set_value_counts:
  "set (value_counts tie xs) = (\<lambda>k. (k, count_list xs k)) ` set xs"
  using mset_value_counts[of tie xs, THEN arg_cong, of set_mset] by simp

lemma keys_value_counts [simp]: "set (map fst (value_counts tie xs)) = set xs"
  by (force simp: set_value_counts)

lemma distinct_keys_value_counts: "distinct (map fst (value_counts tie xs))"
proof -
  have "mset (map fst (value_counts tie xs)) = mset (unique xs)"
    by (simp add: value_counts_def multiset.map_comp comp_def)
  then show ?thesis
    by (metis distinct_unique mset_eq_imp_distinct_iff)
qed

lemma map_of_value_counts:
  "map_of (value_counts tie xs) k = (if k \<in> set xs then Some (count_list xs k) else None)"
proof (cases "k \<in> set xs")
  case True
  then have "(k, count_list xs k) \<in> set (value_counts tie xs)"
    by (simp add: set_value_counts)
  then show ?thesis
    using True distinct_keys_value_counts[of tie xs] by simp
next
  case False
  then have "k \<notin> fst ` set (value_counts tie xs)"
    using keys_value_counts[of tie xs] by simp
  then show ?thesis
    using False by (simp add: map_of_eq_None_iff)
qed

lemma vc_get_value_counts:
  "vc_get (value_counts tie xs) k = (if k \<in> set xs then Inr (count_list xs k) else Inl KeyError)"
  by (simp add: vc_get_def map_of_value_counts)

lemma sum_value_counts: "sum_list (map snd (value_counts tie xs)) = length xs"
proof -
  have "mset (map snd (value_counts tie xs)) = mset (map (count_list xs) (unique xs))"
    by (simp add: value_counts_def multiset.map_comp comp_def)
  then have "sum_list (map snd (value_counts tie xs)) = sum_list (map (count_list xs) (unique xs))"
    by (metis sum_mset_sum_list)
  also have "\<dots> = sum (count_list xs) (set xs)"
    by (simp add: sum_list_distinct_conv_sum_set)
  also have "\<dots> = length xs"
    by (simp add: sum_count_set)
  finally show ?thesis .
qed

section \<open>The decision policy of reference pruning\<close>

lemma reference_mapping_other:
  "reference_mapping t obs rn rc sd vc cs m0 = Inr m \<Longrightarrow> c \<notin> set cs \<Longrightarrow> m c = m0 c"
proof (induction cs arbitrary: m0)
  case Nil
  then show ?case by simp
next
  case (Cons x cs)
  from Cons.prems(1) obtain m1 where "reference_mapping t obs rn rc sd vc cs m1 = Inr m" "m1 c = m0 c"
    using Cons.prems(2) by (auto simp: Let_def split: sum.splits)
  then show ?case using Cons.IH[of m1] Cons.prems(2) by simp
qed

lemma reference_mapping_sound:
  "reference_mapping t obs rn rc sd vc cs m0 = Inr m \<Longrightarrow> c \<in> set cs \<Longrightarrow>
   \<exists>n s. vc_get vc c = Inr n \<and> cluster_size sd c = Inr s \<and>
     m c = Some (if q_ge (np_div n s) (6 / 10) then c
                 else if q_ge (np_div n (sum_list (map snd vc))) (5 / 100) then c
                 else if q_lt (np_div n (sum_list (map snd vc))) (5 / 100) \<and> t < n then c
                 else rn @ ''@'' @ rc)"
proof (induction cs arbitrary: m0)
  case Nil
  then show ?case by simp
next
  case (Cons x cs)
  from Cons.prems(1) obtain n s where
    n: "vc_get vc x = Inr n" and s: "cluster_size sd x = Inr s" and
    rest: "reference_mapping t obs rn rc sd vc cs
       (m0(x \<mapsto> (if q_ge (np_div n s) (6 / 10) then x
                 else if q_ge (np_div n (sum_list (map snd vc))) (5 / 100) then x
                 else if q_lt (np_div n (sum_list (map snd vc))) (5 / 100) \<and> t < n then x
                 else rn @ ''@'' @ rc))) = Inr m"
    by (auto simp: Let_def split: sum.splits)
  show ?case
  proof (cases "c \<in> set cs")
    case True
    then show ?thesis using Cons.IH[OF rest] by simp
  next
    case False
    then have "c = x" using Cons.prems(2) by simp
    then show ?thesis
      using reference_mapping_other[OF rest False] n s by simp
  qed
qed

lemma policy_by_spec_eq:
  "0 < s \<Longrightarrow> 0 < N \<Longrightarrow>
   (if q_ge (np_div n s) (6 / 10) then c
    else if q_ge (np_div n N) (5 / 100) then c
    else if q_lt (np_div n N) (5 / 100) \<and> t < n then c
    else rn @ ''@'' @ rc) = policy_by_spec t rn rc N c n s"
  by (simp add: policy_by_spec_def np_div_def)

lemma chunk_mapping_policy:
  assumes "chunk_mapping tie thresh (ref_cluster, rows) refname sd obs = Inr mapping"
    and "r \<in> set rows"
    and "cluster_size sd (raw r) = Inr s" and "0 < s"
  shows "mapping (raw r) =
           Some (policy_by_spec thresh refname ref_cluster (length rows) (raw r)
                   (count_list (map raw rows) (raw r)) s)"
proof -
  let ?vc = "value_counts tie (map raw rows)"
  have run: "reference_mapping thresh obs refname ref_cluster sd ?vc (map fst ?vc) Map.empty = Inr mapping"
    using assms(1) by (simp add: chunk_mapping_def Let_def)
  have mem: "raw r \<in> set (map fst ?vc)"
    using assms(2) by (simp only: keys_value_counts) simp
  have N: "0 < length rows" using assms(2) by (cases rows) auto
  from reference_mapping_sound[OF run mem] obtain n s' where
    n: "vc_get ?vc (raw r) = Inr n" and s': "cluster_size sd (raw r) = Inr s'" and
    m: "mapping (raw r) =
          Some (if q_ge (np_div n s') (6 / 10) then raw r
                else if q_ge (np_div n (sum_list (map snd ?vc))) (5 / 100) then raw r
                else if q_lt (np_div n (sum_list (map snd ?vc))) (5 / 100) \<and> thresh < n then raw r
                else refname @ ''@'' @ ref_cluster)"
    by blast
  have n_eq: "n = count_list (map raw rows) (raw r)"
    using n assms(2) by (simp add: vc_get_value_counts)
  have s_eq: "s' = s" using s' assms(3) by simp
  show ?thesis
    unfolding m n_eq s_eq sum_value_counts length_map
    by (simp only: policy_by_spec_eq[OF assms(4) N])
qed

text \<open>C1: for every raw cluster present in a reference group, the mapping built by
  \<^verbatim>\<open>run_reference_pruning\<close> follows the first-matching-rule policy of the
  specification, with the count of the cluster in the chunk, the size of the chunk, the
  size of the cluster in the size index (positive) and the absolute floor of the run.\<close>

theorem reference_pruning_policy:
  assumes "chunk_mapping tie (abs_thresh (length obs)) (ref_cluster, rows) refname sd obs = Inr mapping"
    and "r \<in> set rows"
    and "cluster_size sd (raw r) = Inr s" and "0 < s"
  shows "mapping (raw r) =
           Some (policy_by_spec (abs_thresh (length obs)) refname ref_cluster (length rows) (raw r)
                   (count_list (map raw rows) (raw r)) s)"
  using assms by (rule chunk_mapping_policy)

lemmas eval_defs = mk_row_def small_obs_def small_sizes_def attach_ori_def last_seen_def
  chunk_mapping_def value_counts_def vc_get_def cluster_size_def py_index_def inclusiveness_def
  label_of_def np_div_def abs_thresh_def Let_def

lemmas fold_eval = fold_obs_def fold_sizes_def fold_chunk_def mk_row_def last_seen_def
  chunk_mapping_def value_counts_def vc_get_def cluster_size_def py_index_def inclusiveness_def
  label_of_def np_div_def abs_thresh_def Let_def

lemma fold_mapping:
  "\<exists>m. chunk_mapping last_seen (abs_thresh (length fold_obs)) fold_chunk ''leiden1'' fold_sizes fold_obs = Inr m"
  by (simp add: fold_eval)

lemma fold_mapping0:
  "\<exists>m. chunk_mapping last_seen 0 fold_chunk ''leiden1'' fold_sizes fold_obs = Inr m"
  by (simp add: fold_eval)

theorem reference_pruning_policy_witness:
  "\<exists>m. chunk_mapping last_seen (abs_thresh (length fold_obs)) (''0'', take 21 fold_obs) ''leiden1'' fold_sizes fold_obs = Inr m
       \<and> fold_obs ! 20 \<in> set (take 21 fold_obs)
       \<and> cluster_size fold_sizes (raw (fold_obs ! 20)) = Inr 2 \<and> (0::nat) < 2
       \<and> m (raw (fold_obs ! 20)) = Some ''leiden1@0''"
proof -
  obtain m where m: "chunk_mapping last_seen (abs_thresh (length fold_obs)) (''0'', take 21 fold_obs) ''leiden1'' fold_sizes fold_obs = Inr m"
    using fold_mapping by (auto simp: fold_chunk_def)
  have mem: "fold_obs ! 20 \<in> set (take 21 fold_obs)" by (simp add: fold_obs_def)
  have sz: "cluster_size fold_sizes (raw (fold_obs ! 20)) = Inr 2"
    by (simp add: fold_eval)
  have "m (raw (fold_obs ! 20)) = Some ''leiden1@0''"
    using reference_pruning_policy[OF m mem sz]
    by (simp add: policy_by_spec_def fold_eval)
  with m mem sz show ?thesis by (intro exI[of _ m]) simp
qed

lemma chunk_mapping_target:
  assumes "chunk_mapping tie t (rc, rows) rn sd obs = Inr m" and "c \<in> set (map raw rows)"
  shows "\<exists>n s. m c = Some (if q_ge (np_div n s) (6 / 10) then c
                 else if q_ge (np_div n (length rows)) (5 / 100) then c
                 else if q_lt (np_div n (length rows)) (5 / 100) \<and> t < n then c
                 else rn @ ''@'' @ rc)
          \<and> n = count_list (map raw rows) c \<and> cluster_size sd c = Inr s"
proof -
  let ?vc = "value_counts tie (map raw rows)"
  have run: "reference_mapping t obs rn rc sd ?vc (map fst ?vc) Map.empty = Inr m"
    using assms(1) by (simp add: chunk_mapping_def Let_def)
  have mem: "c \<in> set (map fst ?vc)"
    using assms(2) by (simp only: keys_value_counts)
  from reference_mapping_sound[OF run mem] obtain n s where
    n: "vc_get ?vc c = Inr n" and s: "cluster_size sd c = Inr s" and
    m: "m c = Some (if q_ge (np_div n s) (6 / 10) then c
                else if q_ge (np_div n (sum_list (map snd ?vc))) (5 / 100) then c
                else if q_lt (np_div n (sum_list (map snd ?vc))) (5 / 100) \<and> t < n then c
                else rn @ ''@'' @ rc)"
    by blast
  have n_eq: "n = count_list (map raw rows) c"
    using n assms(2) by (simp add: vc_get_value_counts del: set_map)
  show ?thesis
    using m n_eq s unfolding sum_value_counts length_map by blast
qed

lemma target_mono:
  "(t1::nat) \<le> t2 \<Longrightarrow>
   (if P then c else if Q then c else if R \<and> t1 < n then c else p) = p \<Longrightarrow>
   (if P then c else if Q then c else if R \<and> t2 < n then c else p) = (p::string)"
  by (auto split: if_splits)

text \<open>C7: for a fixed chunk, table and size index, a larger absolute floor folds every
  cluster back into the reference label that a smaller floor folds back, so the number of
  folded clusters does not decrease.\<close>

theorem floor_monotone:
  assumes "t1 \<le> t2"
    and "chunk_mapping tie t1 (ref_cluster, rows) refname sd obs = Inr m1"
    and "chunk_mapping tie t2 (ref_cluster, rows) refname sd obs = Inr m2"
  shows "{c \<in> set (map raw rows). m1 c = Some (refname @ ''@'' @ ref_cluster)}
           \<subseteq> {c \<in> set (map raw rows). m2 c = Some (refname @ ''@'' @ ref_cluster)}
         \<and> card {c \<in> set (map raw rows). m1 c = Some (refname @ ''@'' @ ref_cluster)}
           \<le> card {c \<in> set (map raw rows). m2 c = Some (refname @ ''@'' @ ref_cluster)}"
proof -
  let ?parent = "refname @ ''@'' @ ref_cluster"
  have sub: "{c \<in> set (map raw rows). m1 c = Some ?parent} \<subseteq> {c \<in> set (map raw rows). m2 c = Some ?parent}"
  proof
    fix c assume "c \<in> {c \<in> set (map raw rows). m1 c = Some ?parent}"
    then have c: "c \<in> set (map raw rows)" and m1: "m1 c = Some ?parent" by auto
    from chunk_mapping_target[OF assms(2) c] obtain n s where
      t1: "m1 c = Some (if q_ge (np_div n s) (6 / 10) then c
                 else if q_ge (np_div n (length rows)) (5 / 100) then c
                 else if q_lt (np_div n (length rows)) (5 / 100) \<and> t1 < n then c
                 else ?parent)"
      and n: "n = count_list (map raw rows) c" and s: "cluster_size sd c = Inr s"
      by blast
    from chunk_mapping_target[OF assms(3) c] obtain n' s' where
      t2: "m2 c = Some (if q_ge (np_div n' s') (6 / 10) then c
                 else if q_ge (np_div n' (length rows)) (5 / 100) then c
                 else if q_lt (np_div n' (length rows)) (5 / 100) \<and> t2 < n' then c
                 else ?parent)"
      and n': "n' = count_list (map raw rows) c" and s': "cluster_size sd c = Inr s'"
      by blast
    have eq: "n' = n" "s' = s" using n n' s s' by simp_all
    have "(if q_ge (np_div n s) (6 / 10) then c
                 else if q_ge (np_div n (length rows)) (5 / 100) then c
                 else if q_lt (np_div n (length rows)) (5 / 100) \<and> t1 < n then c
                 else ?parent) = ?parent"
      using t1 m1 by simp
    then have "(if q_ge (np_div n s) (6 / 10) then c
                 else if q_ge (np_div n (length rows)) (5 / 100) then c
                 else if q_lt (np_div n (length rows)) (5 / 100) \<and> t2 < n then c
                 else ?parent) = ?parent"
      using assms(1) by (rule target_mono[rotated])
    then have "m2 c = Some ?parent"
      using t2 unfolding eq by simp
    with c show "c \<in> {c \<in> set (map raw rows). m2 c = Some ?parent}" by simp
  qed
  moreover have "finite {c \<in> set (map raw rows). m2 c = Some ?parent}" by simp
  ultimately show ?thesis by (simp add: card_mono)
qed

theorem floor_monotone_witness:
  "\<exists>m1 m2. (0::nat) \<le> 10
     \<and> chunk_mapping last_seen 0 (''0'', take 21 fold_obs) ''leiden1'' fold_sizes fold_obs = Inr m1
     \<and> chunk_mapping last_seen 10 (''0'', take 21 fold_obs) ''leiden1'' fold_sizes fold_obs = Inr m2
     \<and> m1 ''leiden2@1'' = Some ''leiden2@1''
     \<and> m2 ''leiden2@1'' = Some ''leiden1@0''
     \<and> card {c \<in> set (map raw (take 21 fold_obs)). m1 c = Some (''leiden1'' @ ''@'' @ ''0'')}
       \<le> card {c \<in> set (map raw (take 21 fold_obs)). m2 c = Some (''leiden1'' @ ''@'' @ ''0'')}"
proof -
  obtain m1 where m1: "chunk_mapping last_seen 0 (''0'', take 21 fold_obs) ''leiden1'' fold_sizes fold_obs = Inr m1"
    using fold_mapping0 by (auto simp: fold_chunk_def)
  obtain m2 where m2: "chunk_mapping last_seen 10 (''0'', take 21 fold_obs) ''leiden1'' fold_sizes fold_obs = Inr m2"
    using fold_mapping by (auto simp: fold_chunk_def abs_thresh_def fold_obs_def)
  have mem: "''leiden2@1'' \<in> set (map raw (take 21 fold_obs))"
    by (simp add: fold_obs_def mk_row_def)
  have v1: "m1 ''leiden2@1'' = Some ''leiden2@1''"
    using chunk_mapping_target[OF m1 mem]
    by (auto simp: fold_eval)
  have v2: "m2 ''leiden2@1'' = Some ''leiden1@0''"
    using chunk_mapping_target[OF m2 mem]
    by (auto simp: fold_eval)
  have le: "(0::nat) \<le> 10" by simp
  from floor_monotone[OF le m1 m2] m1 m2 v1 v2 le show ?thesis by blast
qed

section \<open>The invalid list of reassign pruning\<close>


lemma mark_small_sizes:
  "mark_small t sd vc acc = Inr out \<Longrightarrow> (k, n) \<in> set vc \<Longrightarrow> \<exists>s. cluster_size sd k = Inr s"
proof (induction vc arbitrary: acc)
  case Nil
  then show ?case by simp
next
  case (Cons kn vc)
  obtain k' n' where kn: "kn = (k', n')" by (cases kn)
  from Cons.prems(1) kn obtain s where s: "cluster_size sd k' = Inr s"
    by (auto split: sum.splits)
  from Cons.prems(1) kn s obtain acc' where rest: "mark_small t sd vc acc' = Inr out"
    by (auto split: if_splits)
  show ?case
  proof (cases "(k, n) = kn")
    case True
    then show ?thesis using kn s by auto
  next
    case False
    then have "(k, n) \<in> set vc" using Cons.prems(2) by auto
    then show ?thesis by (rule Cons.IH[OF rest])
  qed
qed

lemma mark_small_total:
  "\<forall>kn \<in> set vc. \<exists>s. cluster_size sd (fst kn) = Inr s \<Longrightarrow> \<exists>out. mark_small t sd vc acc = Inr out"
proof (induction vc arbitrary: acc)
  case Nil
  then show ?case by simp
next
  case (Cons kn vc)
  obtain k n where kn: "kn = (k, n)" by (cases kn)
  from Cons.prems kn obtain s where s: "cluster_size sd k = Inr s" by auto
  have ih: "\<And>acc. \<exists>out. mark_small t sd vc acc = Inr out"
    using Cons.IH Cons.prems by simp
  show ?case using kn s ih by simp
qed


lemma invalid_clusters_total:
  assumes "\<forall>k \<in> set (map raw obs). \<exists>s. cluster_size sd k = Inr s"
  shows "\<exists>ivl. invalid_clusters tie sd invalid0 obs = Inr ivl"
proof -
  have "\<forall>kn \<in> set (value_counts tie (map raw obs)). \<exists>s. cluster_size sd (fst kn) = Inr s"
    using assms by (auto simp: set_value_counts)
  from mark_small_total[OF this, of "abs_thresh (length obs)" invalid0]
  obtain out where "mark_small (abs_thresh (length obs)) sd (value_counts tie (map raw obs)) invalid0 = Inr out"
    by blast
  then show ?thesis
    by (simp add: invalid_clusters_def Let_def)
qed



section \<open>The post-pass on singleton clusters\<close>

lemma value_counts_snd:
  "kn \<in> set (value_counts tie xs) \<Longrightarrow> snd kn = count_list xs (fst kn)"
  by (auto simp: set_value_counts)

lemma keys_with_count:
  "map fst (filter (\<lambda>kn. snd kn = c) (value_counts tie xs))
     = filter (\<lambda>k. count_list xs k = c) (map fst (value_counts tie xs))"
proof -
  have "filter (\<lambda>kn. snd kn = c) (value_counts tie xs)
          = filter (\<lambda>kn. count_list xs (fst kn) = c) (value_counts tie xs)"
    by (rule filter_cong[OF refl]) (simp add: value_counts_snd)
  then show ?thesis
    by (simp add: filter_map comp_def)
qed

lemma find_filter_hd: "filter P ys = z # zs \<Longrightarrow> List.find P ys = Some z"
proof (induction ys)
  case Nil
  then show ?case by simp
next
  case (Cons y ys)
  then show ?case by (cases "P y") auto
qed

lemma find_by_filter:
  "List.find P xs = (case filter P xs of [] \<Rightarrow> None | x # rest \<Rightarrow> Some x)"
  by (induction xs) auto

lemma find_filter_neq: "\<not> P x \<Longrightarrow> List.find P (filter (\<lambda>y. y \<noteq> x) xs) = List.find P xs"
  by (induction xs) auto

lemma find_unique: "List.find P (unique xs) = List.find P xs"
  by (induction xs rule: unique.induct) (auto simp: find_filter_neq)

lemma max_count_value_counts:
  assumes "xs \<noteq> []"
  shows "max_count (value_counts tie xs) = Max (count_list xs ` set xs)"
proof -
  have "max_count (value_counts tie xs) = Max (set (0 # map snd (value_counts tie xs)))"
    by (simp only: max_count_def Max.set_eq_fold)
  also have "set (0 # map snd (value_counts tie xs)) = insert 0 (count_list xs ` set xs)"
    by (force simp: set_value_counts)
  also have "Max (insert 0 (count_list xs ` set xs)) = Max (count_list xs ` set xs)"
    using assms by (simp add: max_def)
  finally show ?thesis .
qed

lemma map_filter_Nil_iff: "List.map_filter f xs = [] \<longleftrightarrow> (\<forall>x \<in> set xs. f x = None)"
  by (induction xs) (auto simp: List.map_filter_simps split: option.splits)

lemma set_map_filter: "set (List.map_filter f xs) = {y. \<exists>x \<in> set xs. f x = Some y}"
  by (induction xs) (auto simp: List.map_filter_simps split: option.splits)

text \<open>With tied values kept in order of first appearance, the first key of a given count is
  the first-encountered value of that count.\<close>

lemma value_counts_first_seen:
  "filter (\<lambda>k. count_list xs k = c) (map fst (value_counts first_seen xs))
     = filter (\<lambda>k. count_list xs k = c) (unique xs)"
proof -
  let ?ys = "map (\<lambda>k. (k, count_list xs k)) (unique xs)"
  have vc: "value_counts first_seen xs = rev (sort_key snd (rev ?ys))"
    by (simp add: value_counts_def first_seen_def sort_key_const)
  have "filter (\<lambda>kn. snd kn = c) (value_counts first_seen xs)
          = rev (filter (\<lambda>kn. snd kn = c) (sort_key snd (rev ?ys)))"
    by (simp add: vc rev_filter)
  also have "\<dots> = rev (filter (\<lambda>kn. snd kn = c) (rev ?ys))"
    by (simp only: sort_key_stable)
  also have "\<dots> = filter (\<lambda>kn. snd kn = c) ?ys"
    by (simp add: rev_filter)
  finally have "map fst (filter (\<lambda>kn. snd kn = c) (value_counts first_seen xs))
                  = filter (\<lambda>k. count_list xs k = c) (unique xs)"
    by (simp add: filter_map comp_def)
  then show ?thesis by (simp only: keys_with_count)
qed

lemma find_first_seen:
  "List.find (\<lambda>k. count_list xs k = c) (map fst (value_counts first_seen xs))
     = List.find (\<lambda>k. count_list xs k = c) xs"
proof -
  have "List.find (\<lambda>k. count_list xs k = c) (map fst (value_counts first_seen xs))
          = List.find (\<lambda>k. count_list xs k = c) (unique xs)"
    by (simp only: find_by_filter value_counts_first_seen)
  then show ?thesis by (simp only: find_unique)
qed

lemma singleton_cleanup_char:
  assumes "singleton_cleanup tie rows = Inr out"
  shows "\<exists>m. List.find (\<lambda>k. count_list (List.map_filter pruned rows) k
                          = Max (count_list (List.map_filter pruned rows) ` set (List.map_filter pruned rows)))
                 (map fst (value_counts tie (List.map_filter pruned rows))) = Some m
            \<and> m \<in> set (List.map_filter pruned rows)
            \<and> count_list (List.map_filter pruned rows) m
                = Max (count_list (List.map_filter pruned rows) ` set (List.map_filter pruned rows))
            \<and> out = map (\<lambda>r. case pruned r of
                               None \<Rightarrow> r
                             | Some p \<Rightarrow> if count_list (List.map_filter pruned rows) p = 1
                                         then r\<lparr>pruned := Some m\<rparr> else r) rows"
proof -
  let ?ps = "List.map_filter pruned rows"
  let ?vc = "value_counts tie ?ps"
  let ?top = "map fst (filter (\<lambda>kn. snd kn = max_count ?vc) ?vc)"
  from assms obtain m where m: "py_index ?top 0 = Inr m"
    by (auto simp: singleton_cleanup_def Let_def split: sum.splits)
  then obtain rest where top: "?top = m # rest"
    by (cases ?top) (auto simp: py_index_def)
  then have ne: "?ps \<noteq> []"
    by (auto simp: value_counts_def)
  have "filter (\<lambda>k. count_list ?ps k = max_count ?vc) (map fst ?vc) = m # rest"
    using top by (simp only: keys_with_count)
  then have "List.find (\<lambda>k. count_list ?ps k = max_count ?vc) (map fst ?vc) = Some m"
    by (rule find_filter_hd)
  then have found: "List.find (\<lambda>k. count_list ?ps k = Max (count_list ?ps ` set ?ps)) (map fst ?vc) = Some m"
    by (simp only: max_count_value_counts[OF ne])
  from found have mem: "m \<in> set ?ps" and mx: "count_list ?ps m = Max (count_list ?ps ` set ?ps)"
    using keys_value_counts[of tie ?ps] by (auto simp: find_Some_iff simp del: keys_value_counts)
  define ex where "ex = set (map fst (filter (\<lambda>kn. snd kn = 1) ?vc))"
  have excl: "\<And>r p. r \<in> set rows \<Longrightarrow> pruned r = Some p \<Longrightarrow> p \<in> ex \<longleftrightarrow> count_list ?ps p = 1"
    unfolding ex_def keys_with_count
    using keys_value_counts[of tie ?ps] by (auto simp: set_map_filter simp del: keys_value_counts)
  have "out = map (\<lambda>r. case pruned r of
                               None \<Rightarrow> r
                             | Some p \<Rightarrow> if p \<in> ex then r\<lparr>pruned := Some m\<rparr> else r) rows"
    unfolding ex_def
    using assms m by (simp add: singleton_cleanup_def Let_def del: One_nat_def)
  also have "\<dots> = map (\<lambda>r. case pruned r of
                               None \<Rightarrow> r
                             | Some p \<Rightarrow> if count_list ?ps p = 1
                                         then r\<lparr>pruned := Some m\<rparr> else r) rows"
    by (rule map_cong[OF refl]) (simp add: excl split: option.splits del: One_nat_def)
  finally show ?thesis using found mem mx by blast
qed

text \<open>C6, as amended: the post-pass that both strategies run on every reference group. With
  the pruned labels of the group in row order: every row whose label has count 1 in the
  group takes one cluster of maximal count, the one that \<^verbatim>\<open>value_counts\<close> lists first
  among the clusters of maximal count; every other row is unchanged. Which of several
  clusters of maximal count is listed first is the tie order of pandas: it is the
  first-encountered one when pandas keeps tied values in order of first appearance.\<close>

theorem singleton_cleanup_result:
  assumes "singleton_cleanup tie rows = Inr out"
  shows "\<exists>m. List.find (\<lambda>k. count_list (List.map_filter pruned rows) k
                          = Max (count_list (List.map_filter pruned rows) ` set (List.map_filter pruned rows)))
                 (map fst (value_counts tie (List.map_filter pruned rows))) = Some m
            \<and> m \<in> set (List.map_filter pruned rows)
            \<and> count_list (List.map_filter pruned rows) m
                = Max (count_list (List.map_filter pruned rows) ` set (List.map_filter pruned rows))
            \<and> (tie = first_seen \<longrightarrow>
                 List.find (\<lambda>k. count_list (List.map_filter pruned rows) k
                          = Max (count_list (List.map_filter pruned rows) ` set (List.map_filter pruned rows)))
                   (List.map_filter pruned rows) = Some m)
            \<and> out = map (\<lambda>r. case pruned r of
                               None \<Rightarrow> r
                             | Some p \<Rightarrow> if count_list (List.map_filter pruned rows) p = 1
                                         then r\<lparr>pruned := Some m\<rparr> else r) rows"
proof -
  from singleton_cleanup_char[OF assms] obtain m where
    f: "List.find (\<lambda>k. count_list (List.map_filter pruned rows) k
                          = Max (count_list (List.map_filter pruned rows) ` set (List.map_filter pruned rows)))
                 (map fst (value_counts tie (List.map_filter pruned rows))) = Some m" and
    rest: "m \<in> set (List.map_filter pruned rows)"
      "count_list (List.map_filter pruned rows) m
                = Max (count_list (List.map_filter pruned rows) ` set (List.map_filter pruned rows))"
      "out = map (\<lambda>r. case pruned r of
                               None \<Rightarrow> r
                             | Some p \<Rightarrow> if count_list (List.map_filter pruned rows) p = 1
                                         then r\<lparr>pruned := Some m\<rparr> else r) rows"
    by blast
  have "tie = first_seen \<longrightarrow>
                 List.find (\<lambda>k. count_list (List.map_filter pruned rows) k
                          = Max (count_list (List.map_filter pruned rows) ` set (List.map_filter pruned rows)))
                   (List.map_filter pruned rows) = Some m"
    using f by (auto simp: find_first_seen)
  with f rest show ?thesis by blast
qed

lemma singleton_cleanup_total:
  assumes "\<exists>r \<in> set rows. pruned r \<noteq> None"
  shows "\<exists>out. singleton_cleanup tie rows = Inr out"
proof -
  let ?ps = "List.map_filter pruned rows"
  let ?vc = "value_counts tie ?ps"
  have ne: "?ps \<noteq> []" using assms by (simp add: map_filter_Nil_iff)
  have fin: "finite (count_list ?ps ` set ?ps)" "count_list ?ps ` set ?ps \<noteq> {}"
    using ne by simp_all
  from Max_in[OF fin] obtain k where k: "k \<in> set ?ps" "count_list ?ps k = Max (count_list ?ps ` set ?ps)"
    by auto
  then have "filter (\<lambda>k. count_list ?ps k = max_count ?vc) (map fst ?vc) \<noteq> []"
    using keys_value_counts[of tie ?ps]
    by (auto simp: max_count_value_counts[OF ne] filter_empty_conv simp del: keys_value_counts)
  then have "map fst (filter (\<lambda>kn. snd kn = max_count ?vc) ?vc) \<noteq> []"
    unfolding keys_with_count .
  then obtain m where "py_index (map fst (filter (\<lambda>kn. snd kn = max_count ?vc) ?vc)) 0 = Inr m"
    by (cases "map fst (filter (\<lambda>kn. snd kn = max_count ?vc) ?vc)") (auto simp: py_index_def)
  then show ?thesis
    by (simp add: singleton_cleanup_def Let_def)
qed

theorem singleton_cleanup_result_witness:
  "singleton_cleanup first_seen tie_group
     = Inr (tie_group[4 := (tie_group ! 4)\<lparr>pruned := Some ''leiden1@0''\<rparr>])
   \<and> List.map_filter pruned tie_group
       = [''leiden1@0'', ''leiden2@1'', ''leiden2@1'', ''leiden1@0'', ''leiden2@2'']
   \<and> (\<exists>m. List.find (\<lambda>k. count_list (List.map_filter pruned tie_group) k
                          = Max (count_list (List.map_filter pruned tie_group)
                                   ` set (List.map_filter pruned tie_group)))
                 (map fst (value_counts first_seen (List.map_filter pruned tie_group))) = Some m
            \<and> m \<in> set (List.map_filter pruned tie_group)
            \<and> count_list (List.map_filter pruned tie_group) m
                = Max (count_list (List.map_filter pruned tie_group)
                         ` set (List.map_filter pruned tie_group))
            \<and> (first_seen = (first_seen :: string list \<Rightarrow> string \<Rightarrow> nat) \<longrightarrow>
                 List.find (\<lambda>k. count_list (List.map_filter pruned tie_group) k
                          = Max (count_list (List.map_filter pruned tie_group)
                                   ` set (List.map_filter pruned tie_group)))
                   (List.map_filter pruned tie_group) = Some m)
            \<and> tie_group[4 := (tie_group ! 4)\<lparr>pruned := Some ''leiden1@0''\<rparr>]
              = map (\<lambda>r. case pruned r of
                               None \<Rightarrow> r
                             | Some p \<Rightarrow> if count_list (List.map_filter pruned tie_group) p = 1
                                         then r\<lparr>pruned := Some m\<rparr> else r) tie_group)"
proof -
  have run: "singleton_cleanup first_seen tie_group
     = Inr (tie_group[4 := (tie_group ! 4)\<lparr>pruned := Some ''leiden1@0''\<rparr>])"
    by (simp add: singleton_cleanup_def tie_group_def max_count_def List.map_filter_simps
        first_seen_def eval_defs)
  have labels: "List.map_filter pruned tie_group
       = [''leiden1@0'', ''leiden2@1'', ''leiden2@1'', ''leiden1@0'', ''leiden2@2'']"
    by (simp add: tie_group_def List.map_filter_simps mk_row_def)
  show ?thesis
    by (rule conjI[OF run conjI[OF labels singleton_cleanup_result[OF run]]])
qed

text \<open>In the group of five cells two pruned labels tie for the maximal count of two, and
  \<^verbatim>\<open>leiden1@0\<close> is the first-encountered of them. With tied values listed in reverse
  order of first appearance, \<^verbatim>\<open>value_counts\<close> lists \<^verbatim>\<open>leiden2@1\<close> first, and the
  cell of the singleton label \<^verbatim>\<open>leiden2@2\<close> takes \<^verbatim>\<open>leiden2@1\<close>.\<close>

theorem singleton_cleanup_tie_counterexample:
  "singleton_cleanup last_seen tie_group
     = Inr (tie_group[4 := (tie_group ! 4)\<lparr>pruned := Some ''leiden2@1''\<rparr>])
   \<and> pruned (tie_group ! 4) = Some ''leiden2@2''
   \<and> List.map_filter pruned tie_group
       = [''leiden1@0'', ''leiden2@1'', ''leiden2@1'', ''leiden1@0'', ''leiden2@2'']
   \<and> value_counts last_seen (List.map_filter pruned tie_group)
       = [(''leiden2@1'', 2), (''leiden1@0'', 2), (''leiden2@2'', 1)]"
  by (simp add: singleton_cleanup_def tie_group_def max_count_def List.map_filter_simps eval_defs)

section \<open>Original order is restored\<close>

lemma carried_refl: "carried a a"
  by (simp add: carried_def same_observation_def)

lemma carried_trans: "carried a b \<Longrightarrow> carried b c \<Longrightarrow> carried a c"
  by (simp add: carried_def same_observation_def)

lemma list_all2_carried_trans:
  "list_all2 carried xs ys \<Longrightarrow> list_all2 carried ys zs \<Longrightarrow> list_all2 carried xs zs"
  using list_all2_trans[of carried carried carried] carried_trans by blast

lemma list_all2_carried_refl: "list_all2 carried xs xs"
  by (simp add: list_all2_refl carried_refl)

lemma carried_map_ori: "list_all2 carried xs ys \<Longrightarrow> map ori xs = map ori ys"
  by (induction rule: list_all2_induct) (auto simp: carried_def)

text \<open>attach_ori\<close>

lemma length_attach_ori [simp]: "length (attach_ori obs) = length obs"
  by (simp add: attach_ori_def)

lemma nth_attach_ori: "i < length obs \<Longrightarrow> attach_ori obs ! i = (obs ! i)\<lparr>ori := i\<rparr>"
  by (simp add: attach_ori_def nth_enumerate_eq)

lemma map_ori_attach_ori: "map ori (attach_ori obs) = [0..<length obs]"
  by (rule nth_equalityI) (simp_all add: nth_attach_ori)

lemma attach_ori_same: "list_all2 same_observation (attach_ori obs) obs"
  by (simp add: list_all2_conv_all_nth nth_attach_ori same_observation_def)

text \<open>Sorting on ori\<close>

lemma insort_carried:
  "list_all2 carried xs ys \<Longrightarrow> carried a b \<Longrightarrow>
   list_all2 carried (insort_key ori a xs) (insort_key ori b ys)"
proof (induction rule: list_all2_induct)
  case Nil
  then show ?case by simp
next
  case (Cons x xs y ys)
  have "ori a = ori b" "ori x = ori y"
    using Cons.prems Cons.hyps(1) by (simp_all add: carried_def)
  then show ?case
    using Cons by simp
qed

lemma sort_carried:
  "list_all2 carried xs ys \<Longrightarrow> list_all2 carried (sort_by_ori xs) (sort_by_ori ys)"
  unfolding sort_by_ori_def
  by (induction rule: list_all2_induct) (auto intro: insort_carried)

lemma sort_restores:
  assumes perm: "mset ys = mset xs" and pos: "map ori xs = [0..<length xs]"
  shows "sort_by_ori ys = xs"
proof -
  let ?zs = "sort_key ori ys"
  have m: "mset ?zs = mset xs" using perm by simp
  then have mk: "mset (map ori ?zs) = mset (map ori xs)" by (metis mset_map)
  have dx: "distinct (map ori xs)" using pos by simp
  have dz: "distinct (map ori ?zs)"
    using mk dx by (metis mset_eq_imp_distinct_iff)
  have "set (map ori ?zs) = set (map ori xs)"
    using mk by (metis mset_eq_setD)
  moreover have "sorted (map ori ?zs)" by simp
  moreover have "sorted (map ori xs)" using pos by simp
  ultimately have keys: "map ori ?zs = map ori xs"
    using dx dz sorted_distinct_set_unique by blast
  have "set ?zs = set xs" using m by (metis mset_eq_setD)
  moreover have "inj_on ori (set xs)" using dx by (simp add: distinct_map)
  ultimately have "inj_on ori (set ?zs \<union> set xs)" by simp
  then show ?thesis
    using keys unfolding sort_by_ori_def by (simp add: inj_on_map_eq_map)
qed

text \<open>groupby partitions the table\<close>

lemma mset_groups:
  "distinct ks \<Longrightarrow>
   mset (concat (map (\<lambda>k. filter (\<lambda>r. f r = Some k) xs) ks)) = mset (filter (\<lambda>r. \<exists>k \<in> set ks. f r = Some k) xs)"
proof (induction ks)
  case Nil
  then show ?case by simp
next
  case (Cons k ks)
  have "mset (filter (\<lambda>r. f r = Some k) xs) + mset (filter (\<lambda>r. \<exists>k \<in> set ks. f r = Some k) xs)
        = mset (filter (\<lambda>r. \<exists>k' \<in> set (k # ks). f r = Some k') xs)"
    using Cons.prems by (induction xs) auto
  then show ?case using Cons by simp
qed

lemma groupby_partition:
  assumes "groupby key obs = Inr groups"
  shows "mset (concat (map snd groups)) = mset obs"
proof -
  let ?ks = "sort (remdups (List.map_filter (label_of key) obs))"
  from assms have all: "\<forall>r \<in> set obs. label_of key r \<noteq> None"
    and groups: "groups = map (\<lambda>k. (k, filter (\<lambda>r. label_of key r = Some k) obs)) ?ks"
    by (auto simp: groupby_def split: if_splits)
  have d: "distinct ?ks" by simp
  have "concat (map snd groups) = concat (map (\<lambda>k. filter (\<lambda>r. label_of key r = Some k) obs) ?ks)"
    by (simp add: groups comp_def)
  then have "mset (concat (map snd groups)) = mset (filter (\<lambda>r. \<exists>k \<in> set ?ks. label_of key r = Some k) obs)"
    using mset_groups[OF d] by simp
  also have "filter (\<lambda>r. \<exists>k \<in> set ?ks. label_of key r = Some k) obs = obs"
  proof (rule filter_True)
    show "\<forall>r \<in> set obs. \<exists>k \<in> set ?ks. label_of key r = Some k"
      using all by (fastforce simp: set_map_filter)
  qed
  finally show ?thesis .
qed

text \<open>workers\<close>

lemma singleton_cleanup_carried:
  assumes "singleton_cleanup tie rows = Inr out"
  shows "list_all2 carried out rows"
proof -
  from assms obtain h where "out = map h rows" and "\<And>r. carried (h r) r"
    by (auto simp: singleton_cleanup_def Let_def carried_def same_observation_def
        split: sum.splits option.splits intro!: that)
  then show ?thesis
    by (simp add: list_all2_conv_all_nth)
qed

lemma run_reference_pruning_carried:
  assumes "run_reference_pruning tie chunk refname sd obs = Inr out"
  shows "list_all2 carried out (snd chunk)"
proof -
  from assms obtain mapping where
    out: "singleton_cleanup tie (map (\<lambda>r. r\<lparr>pruned := mapping (raw r)\<rparr>) (snd chunk)) = Inr out"
    by (auto simp: run_reference_pruning_def split: sum.splits)
  have "list_all2 carried (map (\<lambda>r. r\<lparr>pruned := mapping (raw r)\<rparr>) (snd chunk)) (snd chunk)"
    by (simp add: list_all2_conv_all_nth carried_def same_observation_def)
  with singleton_cleanup_carried[OF out] show ?thesis
    by (rule list_all2_carried_trans)
qed

lemma collect_all_carried:
  "collect_all (map f xs) = Inr ys \<Longrightarrow> (\<And>x y. x \<in> set xs \<Longrightarrow> f x = Inr y \<Longrightarrow> list_all2 carried y (g x)) \<Longrightarrow>
   list_all2 carried (concat ys) (concat (map g xs))"
proof (induction xs arbitrary: ys)
  case Nil
  then show ?case by simp
next
  case (Cons x xs)
  from Cons.prems(1) obtain y ys' where y: "f x = Inr y" and ys': "collect_all (map f xs) = Inr ys'"
    and ys: "ys = y # ys'"
    by (auto split: sum.splits)
  have "list_all2 carried y (g x)" using Cons.prems(2)[OF _ y] by simp
  moreover have "list_all2 carried (concat ys') (concat (map g xs))"
    using Cons.IH[OF ys'] Cons.prems(2) by simp
  ultimately show ?case using ys by (simp add: list_all2_appendI)
qed

lemma attach_ori_positions: "map ori (attach_ori obs) = [0..<length (attach_ori obs)]"
  by (simp add: map_ori_attach_ori)

lemma concat_carried:
  "list_all2 (list_all2 carried) results chunks \<Longrightarrow> list_all2 carried (concat results) (concat chunks)"
  by (induction rule: list_all2_induct) (auto intro: list_all2_appendI)

lemma collect_restores:
  assumes "mset (concat chunks) = mset (attach_ori obs)"
    and "list_all2 (list_all2 carried) results chunks"
  shows "list_all2 carried (sort_by_ori (concat results)) (attach_ori obs)"
proof -
  have "list_all2 carried (sort_by_ori (concat results)) (sort_by_ori (concat chunks))"
    using assms(2) by (intro sort_carried concat_carried)
  then show ?thesis
    by (simp only: sort_restores[OF assms(1) attach_ori_positions])
qed

lemma carried_attach_ori:
  assumes "list_all2 carried res (attach_ori obs)"
  shows "list_all2 same_observation res obs \<and> map ori res = [0..<length obs]"
proof -
  have "map ori res = [0..<length obs]"
    using carried_map_ori[OF assms] by (simp add: map_ori_attach_ori)
  moreover have "list_all2 same_observation res (attach_ori obs)"
    using assms by (rule list_all2_mono) (simp add: carried_def)
  then have "list_all2 same_observation res obs"
    using attach_ori_same[of obs]
    by (rule list_all2_trans[rotated]) (simp add: same_observation_def)
  ultimately show ?thesis by simp
qed

lemma reference_pruning_carried:
  assumes "reference_pruning tie obs refname sd = Inr res"
  shows "list_all2 carried res (attach_ori obs)"
proof -
  let ?t = "attach_ori obs"
  from assms obtain chunk_list pruned_chunks where
    grp: "groupby refname ?t = Inr chunk_list" and
    col: "collect_all (map (\<lambda>chunk. run_reference_pruning tie chunk refname sd ?t) chunk_list) = Inr pruned_chunks" and
    res: "res = sort_by_ori (concat pruned_chunks)"
    by (auto simp: reference_pruning_def Let_def split: sum.splits if_splits)
  have "list_all2 carried (concat pruned_chunks) (concat (map snd chunk_list))"
    using col by (rule collect_all_carried) (rule run_reference_pruning_carried)
  then have "list_all2 carried res (sort_by_ori (concat (map snd chunk_list)))"
    unfolding res by (rule sort_carried)
  then show ?thesis
    by (simp only: sort_restores[OF groupby_partition[OF grp] attach_ori_positions])
qed

lemma zip_pruned_carried:
  "length ps = length rows \<Longrightarrow>
   list_all2 carried (map (\<lambda>(r, p). r\<lparr>pruned := Some p\<rparr>) (zip rows ps)) rows"
  by (simp add: list_all2_conv_all_nth carried_def same_observation_def)

lemma reassign_pruning_carried:
  assumes "reassign_pruning tie (Some obs0) classify s = Inr (res, ivl)"
  shows "list_all2 carried res (attach_ori obs0)"
proof -
  let ?t = "attach_ori obs0"
  define V where "V = filter (\<lambda>r. raw r \<notin> set ivl) ?t"
  define I where "I = filter (\<lambda>r. raw r \<in> set ivl) ?t"
  from assms obtain result groups bucket where
    len: "length result = length I" and
    grp: "groupby (reference s)
            (sort_by_ori (map (\<lambda>r. r\<lparr>pruned := Some (raw r)\<rparr>) V
                          @ map (\<lambda>(r, p). r\<lparr>pruned := Some p\<rparr>) (zip I result))) = Inr groups" and
    col: "collect_all (map (\<lambda>g. singleton_cleanup tie (snd g)) groups) = Inr bucket" and
    res: "res = sort_by_ori (concat bucket)"
    unfolding V_def I_def
    by (auto simp: reassign_pruning_def Let_def split: option.splits sum.splits if_splits)
  let ?M = "sort_by_ori (map (\<lambda>r. r\<lparr>pruned := Some (raw r)\<rparr>) V
                          @ map (\<lambda>(r, p). r\<lparr>pruned := Some p\<rparr>) (zip I result))"
  have "list_all2 carried (map (\<lambda>r. r\<lparr>pruned := Some (raw r)\<rparr>) V) V"
    by (simp add: list_all2_conv_all_nth carried_def same_observation_def)
  then have "list_all2 carried (map (\<lambda>r. r\<lparr>pruned := Some (raw r)\<rparr>) V
                          @ map (\<lambda>(r, p). r\<lparr>pruned := Some p\<rparr>) (zip I result)) (V @ I)"
    using zip_pruned_carried[OF len] by (rule list_all2_appendI)
  then have "list_all2 carried ?M (sort_by_ori (V @ I))"
    by (rule sort_carried)
  moreover have "mset (V @ I) = mset ?t"
    unfolding V_def I_def by (simp add: multiset_partition[symmetric] add.commute)
  ultimately have M: "list_all2 carried ?M ?t"
    by (simp only: sort_restores[OF _ attach_ori_positions])
  have posM: "map ori ?M = [0..<length ?M]"
    using carried_map_ori[OF M] list_all2_lengthD[OF M] by (simp add: map_ori_attach_ori)
  have "list_all2 carried (concat bucket) (concat (map snd groups))"
    using col by (rule collect_all_carried) (rule singleton_cleanup_carried)
  then have "list_all2 carried res (sort_by_ori (concat (map snd groups)))"
    unfolding res by (rule sort_carried)
  then have "list_all2 carried res ?M"
    by (simp only: sort_restores[OF groupby_partition[OF grp] posM])
  then show ?thesis using M by (rule list_all2_carried_trans)
qed

lemma thirty_run:
  "\<exists>res. reassign_pruning last_seen (Some thirty_obs) first_valid_label thirty_obj
           = Inr (res, [''leiden2@1''])"
  by (simp add: reassign_pruning_def thirty_obj_def thirty_obs_def
      first_valid_label_def invalid_clusters_def list_set_def groupby_def sort_by_ori_def
      singleton_cleanup_def max_count_def List.map_filter_simps eval_defs)

lemma small_reference_run:
  "\<exists>res. reference_pruning last_seen small_obs ''leiden1'' small_sizes = Inr res"
  by (simp add: reference_pruning_def run_reference_pruning_def groupby_def sort_by_ori_def
      singleton_cleanup_def max_count_def List.map_filter_simps eval_defs)

text \<open>C3: the table that \<^verbatim>\<open>reference_pruning\<close> and \<^verbatim>\<open>reassign_pruning\<close> return lists
  the observations of the input in the input order, and its \<^verbatim>\<open>ori\<close> column counts
  0, 1, 2, ...; more generally, for chunks that hold the rows of the position-tagged table
  in any grouping and any order, and workers that carry every row, sorting the concatenated
  results on \<^verbatim>\<open>ori\<close> gives back the input order.\<close>

theorem pruning_restores_order:
  "(mset (concat chunks) = mset (attach_ori obs1) \<longrightarrow> list_all2 (list_all2 carried) results chunks \<longrightarrow>
      list_all2 same_observation (sort_by_ori (concat results)) obs1
      \<and> map ori (sort_by_ori (concat results)) = [0..<length obs1])
   \<and> (reference_pruning tie obs2 refname sd = Inr res2 \<longrightarrow>
      list_all2 same_observation res2 obs2 \<and> map ori res2 = [0..<length obs2])
   \<and> (reassign_pruning tie (Some obs3) classify s = Inr (res3, ivl) \<longrightarrow>
      list_all2 same_observation res3 obs3 \<and> map ori res3 = [0..<length obs3])"
  using collect_restores[THEN carried_attach_ori]
    reference_pruning_carried[THEN carried_attach_ori]
    reassign_pruning_carried[THEN carried_attach_ori]
  by blast

theorem pruning_restores_order_witness:
  "(mset (concat [[(small_obs ! 1)\<lparr>ori := 1\<rparr>], [(small_obs ! 0)\<lparr>ori := 0\<rparr>]])
       = mset (attach_ori [small_obs ! 0, small_obs ! 1])
    \<and> list_all2 (list_all2 carried)
         [[(small_obs ! 1)\<lparr>ori := 1, pruned := Some ''leiden2@1''\<rparr>], [(small_obs ! 0)\<lparr>ori := 0\<rparr>]]
         [[(small_obs ! 1)\<lparr>ori := 1\<rparr>], [(small_obs ! 0)\<lparr>ori := 0\<rparr>]]
    \<and> list_all2 same_observation
         (sort_by_ori (concat [[(small_obs ! 1)\<lparr>ori := 1, pruned := Some ''leiden2@1''\<rparr>],
                               [(small_obs ! 0)\<lparr>ori := 0\<rparr>]]))
         [small_obs ! 0, small_obs ! 1])
   \<and> (\<exists>res. reference_pruning last_seen small_obs ''leiden1'' small_sizes = Inr res
      \<and> list_all2 same_observation res small_obs \<and> map ori res = [0..<length small_obs])
   \<and> (\<exists>res. reassign_pruning last_seen (Some thirty_obs) first_valid_label thirty_obj
             = Inr (res, [''leiden2@1''])
      \<and> list_all2 same_observation res thirty_obs
      \<and> map ori res = [0..<length thirty_obs])"
proof -
  have a1: "mset (concat [[(small_obs ! 1)\<lparr>ori := 1\<rparr>], [(small_obs ! 0)\<lparr>ori := 0\<rparr>]])
       = mset (attach_ori [small_obs ! 0, small_obs ! 1])"
    by (simp add: attach_ori_def small_obs_def mk_row_def)
  have a2: "list_all2 (list_all2 carried)
         [[(small_obs ! 1)\<lparr>ori := 1, pruned := Some ''leiden2@1''\<rparr>], [(small_obs ! 0)\<lparr>ori := 0\<rparr>]]
         [[(small_obs ! 1)\<lparr>ori := 1\<rparr>], [(small_obs ! 0)\<lparr>ori := 0\<rparr>]]"
    by (simp add: carried_def same_observation_def)
  obtain res where b: "reference_pruning last_seen small_obs ''leiden1'' small_sizes = Inr res"
    using small_reference_run by blast
  obtain res' where c: "reassign_pruning last_seen (Some thirty_obs) first_valid_label thirty_obj
             = Inr (res', [''leiden2@1''])"
    using thirty_run by blast
  note inst = pruning_restores_order[of
      "[[(small_obs ! 1)\<lparr>ori := 1\<rparr>], [(small_obs ! 0)\<lparr>ori := 0\<rparr>]]"
      "[small_obs ! 0, small_obs ! 1]"
      "[[(small_obs ! 1)\<lparr>ori := 1, pruned := Some ''leiden2@1''\<rparr>], [(small_obs ! 0)\<lparr>ori := 0\<rparr>]]"
      last_seen small_obs "''leiden1''" small_sizes res
      thirty_obs first_valid_label thirty_obj res' "[''leiden2@1'']"]
  from inst a1 a2 b c show ?thesis by blast
qed

section \<open>Reassign pruning on a stable labeling\<close>















section \<open>The data passed to the Shapley computation\<close>

lemma remove1_once:
  "count_list xs x \<le> 1 \<Longrightarrow> remove1 x xs = filter (\<lambda>m. m \<noteq> x) xs"
proof (induction xs)
  case Nil
  then show ?case by simp
next
  case (Cons a xs)
  show ?case
  proof (cases "a = x")
    case True
    with Cons.prems have "count_list xs x = 0" by simp
    then have "x \<notin> set xs" by (simp add: count_list_0_iff)
    then have "filter (\<lambda>m. m \<noteq> x) xs = xs" by (auto intro: filter_True)
    with True show ?thesis by simp
  next
    case False
    with Cons show ?thesis by simp
  qed
qed

lemma map_filter_all_Some:
  "\<forall>n \<in> set names. f n \<noteq> None \<Longrightarrow> map Some (List.map_filter f names) = map f names"
  by (induction names) (auto simp: List.map_filter_simps)

lemma select_columns_char:
  assumes "select_columns obs names = Inr M"
  shows "list_all2 (\<lambda>v r. map Some v = map (\<lambda>n. map_of (scores r) n) names) M obs"
proof -
  from assms have all: "\<forall>r \<in> set obs. \<forall>n \<in> set names. map_of (scores r) n \<noteq> None"
    and M: "M = map (\<lambda>r. List.map_filter (map_of (scores r)) names) obs"
    by (auto simp: select_columns_def split: if_splits)
  show ?thesis
    unfolding M list_all2_conv_all_nth
    using all by (auto intro!: map_filter_all_Some)
qed

lemma collect_all_nth:
  "collect_all (map f xs) = Inr ys \<Longrightarrow> length ys = length xs \<and> (\<forall>k < length xs. f (xs ! k) = Inr (ys ! k))"
proof (induction xs arbitrary: ys)
  case Nil
  then show ?case by simp
next
  case (Cons x xs)
  from Cons.prems obtain y ys' where y: "f x = Inr y" and ys': "collect_all (map f xs) = Inr ys'"
    and ys: "ys = y # ys'"
    by (auto split: sum.splits)
  from Cons.IH[OF ys'] y ys show ?case
    by (auto simp: nth_Cons split: nat.splits)
qed

text \<open>array_split cuts the list into consecutive pieces\<close>

lemma concat_pieces:
  assumes "\<And>i. i < m \<Longrightarrow> off i \<le> off (Suc i)"
  shows "concat (map (\<lambda>i. take (off (Suc i) - off i) (drop (off i) xs)) [0..<m])
           = take (off m - off 0) (drop (off 0) xs)"
  using assms
proof (induction m)
  case 0
  then show ?case by simp
next
  case (Suc m)
  have mono: "off 0 \<le> off m"
    using Suc.prems by (induction m) (auto intro: le_trans simp: less_Suc_eq)
  have step: "off m \<le> off (Suc m)" using Suc.prems by simp
  have "concat (map (\<lambda>i. take (off (Suc i) - off i) (drop (off i) xs)) [0..<Suc m])
      = take (off m - off 0) (drop (off 0) xs) @ take (off (Suc m) - off m) (drop (off m) xs)"
    using Suc by simp
  also have "drop (off m) xs = drop (off m - off 0) (drop (off 0) xs)"
    using mono by simp
  also have "take (off m - off 0) (drop (off 0) xs)
          @ take (off (Suc m) - off m) (drop (off m - off 0) (drop (off 0) xs))
      = take ((off m - off 0) + (off (Suc m) - off m)) (drop (off 0) xs)"
    by (simp add: take_add)
  also have "(off m - off 0) + (off (Suc m) - off m) = off (Suc m) - off 0"
    using mono step by simp
  finally show ?case .
qed

lemma concat_array_split:
  assumes "0 < k"
  shows "concat (array_split k xs) = xs"
proof -
  define q where "q = length xs div k"
  define r where "r = length xs mod k"
  define off where "off = (\<lambda>i. if i \<le> r then i * (q + 1) else r * (q + 1) + (i - r) * q)"
  have rk: "r < k" using assms by (simp add: r_def)
  have step: "off (Suc i) = off i + (if i < r then q + 1 else q)" for i
  proof (cases "i < r")
    case True
    then show ?thesis by (simp add: off_def)
  next
    case False
    then have "off i = r * (q + 1) + (i - r) * q" by (auto simp: off_def)
    moreover have "off (Suc i) = r * (q + 1) + (i - r) * q + q"
      using False by (simp add: off_def Suc_diff_le)
    ultimately show ?thesis using False by simp
  qed
  have piece: "(if i < r then take (q + 1) (drop (i * (q + 1)) xs)
                else take q (drop (r * (q + 1) + (i - r) * q) xs))
               = take (off (Suc i) - off i) (drop (off i) xs)" for i
  proof (cases "i < r")
    case True
    then show ?thesis by (simp add: step) (simp add: off_def)
  next
    case False
    then have "off i = r * (q + 1) + (i - r) * q" by (auto simp: off_def)
    then show ?thesis using False by (simp add: step)
  qed
  have "array_split k xs = map (\<lambda>i. take (off (Suc i) - off i) (drop (off i) xs)) [0..<k]"
    unfolding array_split_def Let_def q_def[symmetric] r_def[symmetric]
    by (simp only: piece)
  moreover have "\<And>i. i < k \<Longrightarrow> off i \<le> off (Suc i)"
    by (simp add: step)
  ultimately have "concat (array_split k xs) = take (off k - off 0) (drop (off 0) xs)"
    using concat_pieces[of k off xs] by simp
  moreover have "off 0 = 0" by (simp add: off_def)
  moreover have "off k = length xs"
  proof -
    have "off k = r * (q + 1) + (k - r) * q" using rk by (simp add: off_def)
    also have "\<dots> = r + k * q"
      using rk by (simp add: algebra_simps flip: add_mult_distrib)
    also have "\<dots> = length xs"
      by (simp add: q_def r_def)
    finally show ?thesis .
  qed
  ultimately show ?thesis by simp
qed

lemma length_array_split [simp]: "length (array_split k xs) = k"
  by (simp add: array_split_def Let_def)

lemma length_filter_neq: "length (filter (\<lambda>m. m \<noteq> x) xs) + count_list xs x = length xs"
  by (induction xs) auto

lemma shapley_data_char:
  assumes run: "shapley_data self = Inr data"
    and once: "count_list (total_metrics self) ''doublet'' = 1"
  shows "length data = length (query self) \<and>
         (\<forall>k < length (query self).
            list_all2 (\<lambda>v r. length v = length (total_metrics self) - 1 \<and>
                        map Some v = map (\<lambda>name. map_of (scores r) (name @ ''@'' @ query self ! k))
                                      (filter (\<lambda>m. m \<noteq> ''doublet'') (total_metrics self)))
              (data ! k) (adata_obs self))"
proof -
  let ?cols = "filter (\<lambda>m. m \<noteq> ''doublet'') (total_metrics self)"
  have rm: "remove1 ''doublet'' (total_metrics self) = ?cols"
    using once by (simp add: remove1_once)
  from run have col: "collect_all (map (\<lambda>key. select_columns (adata_obs self)
                                      (map (\<lambda>name. name @ ''@'' @ key) ?cols)) (query self)) = Inr data"
    by (auto simp: shapley_data_def list_remove_def rm split: if_splits)
  have len: "length ?cols = length (total_metrics self) - 1"
    using length_filter_neq[of "''doublet''" "total_metrics self"] once by simp
  from collect_all_nth[OF col] have l: "length data = length (query self)"
    and each: "\<forall>k < length (query self). select_columns (adata_obs self)
                 (map (\<lambda>name. name @ ''@'' @ query self ! k) ?cols) = Inr (data ! k)"
    by simp_all
  have "list_all2 (\<lambda>v r. length v = length (total_metrics self) - 1 \<and>
                        map Some v = map (\<lambda>name. map_of (scores r) (name @ ''@'' @ query self ! k)) ?cols)
              (data ! k) (adata_obs self)" if k: "k < length (query self)" for k
  proof -
    from each k have "select_columns (adata_obs self)
                 (map (\<lambda>name. name @ ''@'' @ query self ! k) ?cols) = Inr (data ! k)" by simp
    from select_columns_char[OF this]
    have "list_all2 (\<lambda>v r. map Some v = map (\<lambda>name. map_of (scores r) (name @ ''@'' @ query self ! k)) ?cols)
            (data ! k) (adata_obs self)"
      by (simp add: comp_def)
    then show ?thesis
    proof (rule list_all2_mono)
      fix v r assume e: "map Some v = map (\<lambda>name. map_of (scores r) (name @ ''@'' @ query self ! k)) ?cols"
      then have "length (map Some v) = length ?cols" by simp
      then have "length v = length (total_metrics self) - 1" using len by simp
      with e show "length v = length (total_metrics self) - 1 \<and>
         map Some v = map (\<lambda>name. map_of (scores r) (name @ ''@'' @ query self ! k)) ?cols" by simp
    qed
  qed
  with l show ?thesis by simp
qed

lemma gather_chunks:
  assumes "0 < cores" and "k < length data"
  shows "concat (map (\<lambda>t. t ! k) (map (\<lambda>i. map (\<lambda>layer. array_split cores layer ! i) data) [0..<cores]))
           = data ! k"
proof -
  have "map (\<lambda>t. t ! k) (map (\<lambda>i. map (\<lambda>layer. array_split cores layer ! i) data) [0..<cores])
          = map (\<lambda>i. array_split cores (data ! k) ! i) [0..<cores]"
    using assms(2) by simp
  also have "\<dots> = array_split cores (data ! k)"
    using map_nth[of "array_split cores (data ! k)"] by simp
  finally show ?thesis
    using concat_array_split[OF assms(1)] by simp
qed

text \<open>C10, as amended: in the parallel and in the sequential branch of
  \<^verbatim>\<open>compute_shapley\<close>, when \<^verbatim>\<open>doublet\<close> occurs exactly once in
  \<^verbatim>\<open>total_metrics\<close> (as it does unless a user metric is itself named
  \<^verbatim>\<open>doublet\<close>): for every labeling of the query,
  the cells of the tensors passed to \<^verbatim>\<open>run_shapley\<close>, taken in order, are the cells of
  the table, and the vector of a cell holds the values of the columns
  \<^verbatim>\<open>metric@labeling\<close> for the metrics of \<^verbatim>\<open>total_metrics\<close> other than
  \<^verbatim>\<open>doublet\<close>, in their order: one column fewer than there are metrics, and no
  \<^verbatim>\<open>doublet\<close> column.\<close>

theorem shapley_data_without_doublet:
  assumes run: "compute_shapley_data parallel cores self = Inr tensors"
    and once: "count_list (total_metrics self) ''doublet'' = 1"
  shows "\<forall>k < length (query self).
            list_all2 (\<lambda>v r. length v = length (total_metrics self) - 1 \<and>
                        map Some v = map (\<lambda>name. map_of (scores r) (name @ ''@'' @ query self ! k))
                                      (filter (\<lambda>m. m \<noteq> ''doublet'') (total_metrics self)))
              (concat (map (\<lambda>t. t ! k) tensors)) (adata_obs self)"
proof (intro allI impI)
  fix k assume k: "k < length (query self)"
  from run obtain data where data: "shapley_data self = Inr data"
    by (auto simp: compute_shapley_data_def split: if_splits sum.splits)
  note ch = shapley_data_char[OF data once]
  have kd: "k < length data" using ch k by simp
  have "concat (map (\<lambda>t. t ! k) tensors) = data ! k"
  proof (cases parallel)
    case True
    with run data have c: "0 < cores"
      and t: "tensors = map (\<lambda>i. map (\<lambda>layer. array_split cores layer ! i) data) [0..<cores]"
      by (auto simp: compute_shapley_data_def split: if_splits)
    show ?thesis unfolding t by (rule gather_chunks[OF c kd])
  next
    case False
    with run data have "tensors = [data]"
      by (auto simp: compute_shapley_data_def)
    then show ?thesis by simp
  qed
  with ch k show "list_all2 (\<lambda>v r. length v = length (total_metrics self) - 1 \<and>
                        map Some v = map (\<lambda>name. map_of (scores r) (name @ ''@'' @ query self ! k))
                                      (filter (\<lambda>m. m \<noteq> ''doublet'') (total_metrics self)))
              (concat (map (\<lambda>t. t ! k) tensors)) (adata_obs self)"
    by simp
qed

lemma scored_run:
  "compute_shapley_data True 2 scored_obj
     = Inr [[[[1 / 2, 1 / 4, 1, 0]]], [[[1 / 3, 1 / 5, 1 / 2, 1]]]]"
  by (simp add: compute_shapley_data_def shapley_data_def list_remove_def select_columns_def
      array_split_def scored_obj_def example_obj_def mk_row_def List.map_filter_simps Let_def
      numeral_2_eq_2)

lemma scored_run_seq:
  "compute_shapley_data False 2 scored_obj
     = Inr [[[[1 / 2, 1 / 4, 1, 0], [1 / 3, 1 / 5, 1 / 2, 1]]]]"
  by (simp add: compute_shapley_data_def shapley_data_def list_remove_def select_columns_def
      array_split_def scored_obj_def example_obj_def mk_row_def List.map_filter_simps Let_def)

lemma registry_doublet_once:
  assumes "''doublet'' \<notin> set (fst reg)" and "count_list (snd reg) ''doublet'' = 1"
    and "''doublet'' \<notin> set new"
  shows "''doublet'' \<notin> set (fst (add_new_metrics new reg))
         \<and> count_list (snd (add_new_metrics new reg)) ''doublet'' = 1"
proof -
  have "''doublet'' \<notin> set (fst (add_new_metrics new reg))"
    using assms by (simp add: add_new_metrics_def Let_def)
  moreover from this have "count_list (fst (add_new_metrics new reg)) ''doublet'' = 0"
    by (simp add: count_list_0_iff)
  ultimately show ?thesis
    using assms by (simp add: add_new_metrics_def Let_def)
qed

lemma init_registry_doublet_once:
  "count_list (snd (add_new_metrics [''tfidf5''] ([], default_metrics))) ''doublet'' = 1"
  by (simp add: add_new_metrics_def default_metrics_def Let_def)

theorem shapley_data_without_doublet_witness:
  "compute_shapley_data True 2 scored_obj
     = Inr [[[[1 / 2, 1 / 4, 1, 0]]], [[[1 / 3, 1 / 5, 1 / 2, 1]]]]
   \<and> count_list (total_metrics scored_obj) ''doublet'' = 1
   \<and> list_all2 (\<lambda>v r. length v = length (total_metrics scored_obj) - 1 \<and>
                        map Some v = map (\<lambda>name. map_of (scores r) (name @ ''@'' @ query scored_obj ! 0))
                                      (filter (\<lambda>m. m \<noteq> ''doublet'') (total_metrics scored_obj)))
        (concat (map (\<lambda>t. t ! 0) [[[[1 / 2, 1 / 4, 1, 0]]], [[[1 / 3, 1 / 5, 1 / 2, 1]]]]))
        (adata_obs scored_obj)"
proof -
  have once: "count_list (total_metrics scored_obj) ''doublet'' = 1"
    by (simp add: scored_obj_def example_obj_def)
  have k: "0 < length (query scored_obj)"
    by (simp add: scored_obj_def example_obj_def)
  show ?thesis
    by (rule conjI[OF scored_run conjI[OF once
          shapley_data_without_doublet[OF scored_run once, rule_format, OF k]]])
qed

text \<open>An object constructed with a user metric named \<^verbatim>\<open>doublet\<close> registers that name
  twice; \<^verbatim>\<open>remove\<close> drops the first occurrence only, and the tensor of both branches
  holds the column \<^verbatim>\<open>doublet@leiden1\<close> as its last column.\<close>

theorem shapley_doublet_twice_counterexample:
  "total_metrics doubled_obj
     = [''reassign'', ''tfidf10'', ''SCCAF'', ''doublet'', ''tfidf5'', ''doublet'']
   \<and> map_of (scores (adata_obs doubled_obj ! 0)) ''doublet@leiden1'' = Some (1 / 10)
   \<and> map_of (scores (adata_obs doubled_obj ! 1)) ''doublet@leiden1'' = Some (1 / 20)
   \<and> compute_shapley_data False 1 doubled_obj
       = Inr [[[[1 / 2, 1 / 4, 1, 0, 1 / 10], [1 / 3, 1 / 5, 1 / 2, 1, 1 / 20]]]]
   \<and> compute_shapley_data True 1 doubled_obj
       = Inr [[[[1 / 2, 1 / 4, 1, 0, 1 / 10], [1 / 3, 1 / 5, 1 / 2, 1, 1 / 20]]]]"
  by (simp add: compute_shapley_data_def shapley_data_def list_remove_def select_columns_def
      array_split_def doubled_obj_def scored_obj_def example_obj_def mk_row_def
      add_new_metrics_def default_metrics_def List.map_filter_simps Let_def)

section \<open>The celltype sheet\<close>

lemma split_sep_none: "c \<notin> set a \<Longrightarrow> split_sep c a = [a]"
  by (induction a) auto

lemma split_sep_append: "c \<notin> set a \<Longrightarrow> split_sep c (a @ c # b) = a # split_sep c b"
  by (induction a) auto

lemma two_fields:
  assumes "TAB \<notin> set a" and "TAB \<notin> set p"
  shows "split_sep TAB (a @ [TAB] @ p @ [NL]) = [a, p @ [NL]]"
proof -
  have "TAB \<notin> set (p @ [NL])" using assms(2) by (simp add: TAB_def NL_def)
  then show ?thesis
    using split_sep_append[OF assms(1), of "p @ [NL]"] by (simp add: split_sep_none)
qed

lemma distinct_keyed:
  "distinct ks \<Longrightarrow> (\<And>k. distinct (f k)) \<Longrightarrow> distinct (concat (map (\<lambda>k. map (Pair k) (f k)) ks))"
proof (induction ks)
  case Nil
  then show ?case by simp
next
  case (Cons k ks)
  have "distinct (map (Pair k) (f k))"
    using Cons.prems(2) by (simp add: distinct_map inj_on_def)
  moreover have "set (map (Pair k) (f k)) \<inter> set (concat (map (\<lambda>k. map (Pair k) (f k)) ks)) = {}"
    using Cons.prems(1) by auto
  ultimately show ?case using Cons by simp
qed

lemma prefixing_pruned_char:
  assumes "prefixing_pruned refname obs0 = Inr obs"
  shows "(\<forall>r \<in> set obs. pruned r \<noteq> None) \<and> list_all2 (\<lambda>a b. pruned a = pruned b \<and> labels a = labels b) obs obs0"
proof -
  from assms have all: "\<forall>r \<in> set obs0. pruned r \<noteq> None"
    and obs: "obs = map (\<lambda>r. case (label_of refname r, pruned r) of
                            (Some c, Some p) \<Rightarrow> r\<lparr>prefixed := Some (refname @ ''@'' @ c @ ''|'' @ p)\<rparr>
                          | _ \<Rightarrow> r) obs0"
    by (auto simp: prefixing_pruned_def split: if_splits)
  have rel: "list_all2 (\<lambda>a b. pruned a = pruned b \<and> labels a = labels b) obs obs0"
    unfolding obs list_all2_conv_all_nth
    by (auto split: option.splits)
  then have "map pruned obs = map pruned obs0"
    by (induction rule: list_all2_induct) auto
  then have "pruned ` set obs = pruned ` set obs0"
    by (metis set_map)
  with all rel show ?thesis by force
qed

lemma celltype_sheet_char:
  assumes cs: "celltype_sheet refname obs = Inr sheet"
    and pr: "\<forall>r \<in> set obs. pruned r \<noteq> None"
  shows "\<exists>pairs. sheet = celltype_header # map (\<lambda>(ref, p). (refname @ ''@'' @ ref) @ [TAB] @ p @ [NL]) pairs
      \<and> distinct pairs
      \<and> set pairs = {(ref, p). \<exists>r \<in> set obs. label_of refname r = Some ref \<and> pruned r = Some p}"
proof -
  define pv where "pv = (\<lambda>r::obs_row. case pruned r of None \<Rightarrow> ''nan'' | Some p \<Rightarrow> p)"
  define ks where "ks = sort (remdups (List.map_filter (label_of refname) obs))"
  define f where "f = (\<lambda>k. unique (map pv (filter (\<lambda>r. label_of refname r = Some k) obs)))"
  define pairs where "pairs = concat (map (\<lambda>k. map (Pair k) (f k)) ks)"
  from cs obtain groups where grp: "groupby refname obs = Inr groups"
    and sheet: "sheet = celltype_header #
               concat (map (\<lambda>g. map (celltype_line refname (fst g)) (unique (map pv (snd g)))) groups)"
    unfolding pv_def by (auto simp: celltype_sheet_def split: sum.splits)
  from grp have groups: "groups = map (\<lambda>k. (k, filter (\<lambda>r. label_of refname r = Some k) obs)) ks"
    unfolding ks_def by (auto simp: groupby_def split: if_splits)
  have "sheet = celltype_header # map (\<lambda>(ref, p). (refname @ ''@'' @ ref) @ [TAB] @ p @ [NL]) pairs"
    unfolding sheet groups pairs_def f_def
    by (simp add: map_concat comp_def celltype_line_def[abs_def])
  moreover have "distinct pairs"
    unfolding pairs_def by (rule distinct_keyed) (simp_all add: ks_def f_def)
  moreover have "set pairs = {(ref, p). \<exists>r \<in> set obs. label_of refname r = Some ref \<and> pruned r = Some p}"
  proof -
    have pvp: "pv r = p \<longleftrightarrow> pruned r = Some p" if "r \<in> set obs" for r p
      using pr that by (auto simp: pv_def split: option.splits)
    have "set pairs = {(k, p). k \<in> set ks \<and> p \<in> set (f k)}"
      unfolding pairs_def by auto
    also have "\<dots> = {(ref, p). \<exists>r \<in> set obs. label_of refname r = Some ref \<and> pruned r = Some p}"
    proof -
      have "k \<in> set ks \<and> p \<in> set (f k) \<longleftrightarrow>
            (\<exists>r \<in> set obs. label_of refname r = Some k \<and> pruned r = Some p)" for k p
      proof
        assume "k \<in> set ks \<and> p \<in> set (f k)"
        then obtain r where "r \<in> set obs" "label_of refname r = Some k" "pv r = p"
          by (auto simp: f_def)
        then show "\<exists>r \<in> set obs. label_of refname r = Some k \<and> pruned r = Some p"
          using pvp by blast
      next
        assume "\<exists>r \<in> set obs. label_of refname r = Some k \<and> pruned r = Some p"
        then obtain r where r: "r \<in> set obs" "label_of refname r = Some k" "pruned r = Some p"
          by blast
        then have "pv r = p" using pvp by blast
        with r have "p \<in> set (f k)" by (force simp: f_def)
        moreover have "k \<in> set ks" using r by (force simp: ks_def set_map_filter)
        ultimately show "k \<in> set ks \<and> p \<in> set (f k)" by simp
      qed
      then show ?thesis by simp
    qed
    finally show ?thesis .
  qed
  ultimately show ?thesis by blast
qed

text \<open>C9, as amended: every run of \<^verbatim>\<open>pruning\<close> that completes writes the header line
  and then, for every reference group and every pruned label that occurs in it, exactly one
  data line, made of two tab-separated fields: the reference label
  \<^verbatim>\<open>reference@group\<close> and the pruned label. No third field is written.\<close>

theorem celltype_sheet_two_fields:
  assumes "pruning tie rank classify self method parallel = Inr (self', sheet)"
  shows "\<exists>pairs. sheet = celltype_header # map (\<lambda>(ref, p). (reference self' @ ''@'' @ ref) @ [TAB] @ p @ [NL]) pairs
      \<and> distinct pairs
      \<and> set pairs = {(ref, p). \<exists>r \<in> set (adata_obs self'). label_of (reference self') r = Some ref \<and> pruned r = Some p}
      \<and> (\<forall>(ref, p) \<in> set pairs. TAB \<notin> set (reference self' @ ''@'' @ ref) \<longrightarrow> TAB \<notin> set p \<longrightarrow>
            split_sep TAB ((reference self' @ ''@'' @ ref) @ [TAB] @ p @ [NL])
              = [reference self' @ ''@'' @ ref, p @ [NL]])"
proof -
  from assms obtain self1 obs where
    pf: "prefixing_pruned (reference self1) (adata_obs self1) = Inr obs" and
    cs: "celltype_sheet (reference self1) obs = Inr sheet" and
    self': "self' = self1\<lparr>adata_obs := obs\<rparr>"
    unfolding pruning_def by (auto split: sum.splits)
  have pr: "\<forall>r \<in> set obs. pruned r \<noteq> None"
    using prefixing_pruned_char[OF pf] by simp
  have sel: "reference self' = reference self1" "adata_obs self' = obs"
    by (simp_all add: self')
  from celltype_sheet_char[OF cs pr] obtain pairs where
    s1: "sheet = celltype_header # map (\<lambda>(ref, p). (reference self1 @ ''@'' @ ref) @ [TAB] @ p @ [NL]) pairs" and
    s2: "distinct pairs" and
    s3: "set pairs = {(ref, p). \<exists>r \<in> set obs. label_of (reference self1) r = Some ref \<and> pruned r = Some p}"
    by blast
  have tf: "split_sep TAB ((reference self1 @ ''@'' @ ref) @ [TAB] @ p @ [NL])
              = [reference self1 @ ''@'' @ ref, p @ [NL]]"
    if "TAB \<notin> set (reference self1 @ ''@'' @ ref)" "TAB \<notin> set p" for ref p
    using that by (rule two_fields)
  have s4: "\<forall>(ref, p) \<in> set pairs. TAB \<notin> set (reference self1 @ ''@'' @ ref) \<longrightarrow> TAB \<notin> set p \<longrightarrow>
            split_sep TAB ((reference self1 @ ''@'' @ ref) @ [TAB] @ p @ [NL])
              = [reference self1 @ ''@'' @ ref, p @ [NL]]"
    using tf by fast
  show ?thesis
    unfolding sel using s1 s2 s3 s4 by blast
qed

lemmas pruning_eval = pruning_def reference_pruning_def run_reference_pruning_def groupby_def
  sort_by_ori_def singleton_cleanup_def max_count_def List.map_filter_simps prefixing_pruned_def
  celltype_sheet_def celltype_line_def small_obj_def example_obj_def eval_defs

lemma small_sheet:
  "\<exists>self'. pruning last_seen Inr first_valid_label small_obj ''reference'' True
     = Inr (self', [celltype_header,
                    ''leiden1@0'' @ [TAB] @ ''leiden1@0'' @ [NL],
                    ''leiden1@1'' @ [TAB] @ ''leiden2@1'' @ [NL]])"
  by (simp add: pruning_eval)

theorem celltype_sheet_two_fields_witness:
  "\<exists>self'. pruning last_seen Inr first_valid_label small_obj ''reference'' True
     = Inr (self', [celltype_header,
                    ''leiden1@0'' @ [TAB] @ ''leiden1@0'' @ [NL],
                    ''leiden1@1'' @ [TAB] @ ''leiden2@1'' @ [NL]])
     \<and> (\<exists>pairs. [celltype_header,
                    ''leiden1@0'' @ [TAB] @ ''leiden1@0'' @ [NL],
                    ''leiden1@1'' @ [TAB] @ ''leiden2@1'' @ [NL]]
            = celltype_header # map (\<lambda>(ref, p). (reference self' @ ''@'' @ ref) @ [TAB] @ p @ [NL]) pairs
      \<and> distinct pairs
      \<and> set pairs = {(ref, p). \<exists>r \<in> set (adata_obs self'). label_of (reference self') r = Some ref \<and> pruned r = Some p}
      \<and> (\<forall>(ref, p) \<in> set pairs. TAB \<notin> set (reference self' @ ''@'' @ ref) \<longrightarrow> TAB \<notin> set p \<longrightarrow>
            split_sep TAB ((reference self' @ ''@'' @ ref) @ [TAB] @ p @ [NL])
              = [reference self' @ ''@'' @ ref, p @ [NL]]))"
proof -
  from small_sheet obtain self' where
    run: "pruning last_seen Inr first_valid_label small_obj ''reference'' True
     = Inr (self', [celltype_header,
                    ''leiden1@0'' @ [TAB] @ ''leiden1@0'' @ [NL],
                    ''leiden1@1'' @ [TAB] @ ''leiden2@1'' @ [NL]])"
    by blast
  show ?thesis
    by (rule exI[of _ self'], rule conjI[OF run celltype_sheet_two_fields[OF run]])
qed

text \<open>On the small table the run with method \<^verbatim>\<open>reference\<close> writes two data lines of
  two fields each, not three; and the run with method \<^verbatim>\<open>reassign\<close> writes nothing.\<close>

theorem celltype_sheet_counterexample:
  "map_sum id snd (pruning last_seen Inr first_valid_label small_obj ''reference'' True)
     = Inr [celltype_header,
            ''leiden1@0'' @ [TAB] @ ''leiden1@0'' @ [NL],
            ''leiden1@1'' @ [TAB] @ ''leiden2@1'' @ [NL]]
   \<and> split_sep TAB (''leiden1@0'' @ [TAB] @ ''leiden1@0'' @ [NL]) = [''leiden1@0'', ''leiden1@0'' @ [NL]]
   \<and> split_sep TAB (''leiden1@1'' @ [TAB] @ ''leiden2@1'' @ [NL]) = [''leiden1@1'', ''leiden2@1'' @ [NL]]
   \<and> length (split_sep TAB (''leiden1@0'' @ [TAB] @ ''leiden1@0'' @ [NL])) \<noteq> 3
   \<and> map_sum id snd (pruning last_seen Inr first_valid_label small_obj ''reassign'' True) = Inl TypeError"
proof -
  from small_sheet obtain self' where
    run: "pruning last_seen Inr first_valid_label small_obj ''reference'' True
     = Inr (self', [celltype_header,
                    ''leiden1@0'' @ [TAB] @ ''leiden1@0'' @ [NL],
                    ''leiden1@1'' @ [TAB] @ ''leiden2@1'' @ [NL]])"
    by blast
  have f1: "split_sep TAB (''leiden1@0'' @ [TAB] @ ''leiden1@0'' @ [NL]) = [''leiden1@0'', ''leiden1@0'' @ [NL]]"
    by (simp add: TAB_def NL_def)
  have f2: "split_sep TAB (''leiden1@1'' @ [TAB] @ ''leiden2@1'' @ [NL]) = [''leiden1@1'', ''leiden2@1'' @ [NL]]"
    by (simp add: TAB_def NL_def)
  have r: "map_sum id snd (pruning last_seen Inr first_valid_label small_obj ''reassign'' True) = Inl TypeError"
    by (simp add: pruning_def bind_keywords_def reassign_pruning_params_def)
  show ?thesis
    unfolding run f1 f2 r by simp
qed

end
